theory Spec2Isabelle
  imports Main "HOL-Library.Finite_Map" "HOL-Library.Sublist"
begin

section \<open>Data model\<close>

text \<open>
  The dataclass \<^verbatim>\<open>Package\<close> of \<^verbatim>\<open>src/main.py\<close>: name, version, architecture,
  filename and the list of \<^verbatim>\<open>(dep_name, version_constraint)\<close> pairs. The catalog
  \<^verbatim>\<open>PackageDatabase.packages\<close> is a Python dict from names to packages, hence a finite map.
\<close>

record Package =
  name :: string
  version :: string
  architecture :: string
  filename :: string
  depends :: "(string \<times> string) list"

type_synonym catalog = "(string, Package) fmap"

text \<open>The module constant \<^verbatim>\<open>FORBIDDEN_PACKAGES\<close>.\<close>

definition FORBIDDEN_PACKAGES :: "string set" where
  "FORBIDDEN_PACKAGES =
     {''libc6'', ''libc-bin'', ''libgcc-s1'', ''dpkg'', ''apt'', ''bash'',
      ''coreutils'', ''systemd'', ''init'', ''base-files'', ''ubuntu-minimal''}"

section \<open>Dependency resolution\<close>

text \<open>
  The inner loop of \<^verbatim>\<open>_resolve_dependencies\<close>:
  \<^verbatim>\<open>for sub_dep in sub_deps: if sub_dep not in to_install: to_install.append(sub_dep)\<close>.
\<close>

fun append_new :: "string list \<Rightarrow> string list \<Rightarrow> string list" where
  "append_new to_install [] = to_install"
| "append_new to_install (sub_dep # sub_deps) =
     append_new (if sub_dep \<in> set to_install then to_install else to_install @ [sub_dep]) sub_deps"

text \<open>
  \<^verbatim>\<open>PackageInstaller._resolve_dependencies(name, visited)\<close>. The Python method mutates the
  shared set \<^verbatim>\<open>visited\<close> and returns the list \<^verbatim>\<open>to_install\<close>; the model returns both.
  \<open>installed\<close> is the key set of the dict \<^verbatim>\<open>self.installed\<close> (the method only tests
  membership), \<open>forbidden\<close> stands for the module constant \<^verbatim>\<open>FORBIDDEN_PACKAGES\<close>.
  \<open>resolve_slots\<close> is the \<^verbatim>\<open>for dep_name, constraint in pkg.depends\<close> loop, carrying
  \<^verbatim>\<open>to_install\<close> and \<^verbatim>\<open>visited\<close>.
\<close>

function
  resolve_dependencies ::
    "catalog \<Rightarrow> string set \<Rightarrow> string set \<Rightarrow> string \<Rightarrow> string set \<Rightarrow> string list \<times> string set"
and resolve_slots ::
    "catalog \<Rightarrow> string set \<Rightarrow> string set \<Rightarrow> (string \<times> string) list \<Rightarrow> string list \<Rightarrow> string set
       \<Rightarrow> string list \<times> string set"
where
  "resolve_dependencies db installed forbidden nm visited =
     (if nm \<in> visited then ([], visited)
      else (case fmlookup db nm of
              None \<Rightarrow> ([], insert nm visited)
            | Some pkg \<Rightarrow> resolve_slots db installed forbidden (depends pkg) [] (insert nm visited)))"
| "resolve_slots db installed forbidden [] to_install visited = (to_install, visited)"
| "resolve_slots db installed forbidden ((dep_name, constraint) # rest) to_install visited =
     (if dep_name \<in> forbidden then resolve_slots db installed forbidden rest to_install visited
      else if dep_name \<in> installed then resolve_slots db installed forbidden rest to_install visited
      else if dep_name @ ''t64'' \<in> installed
        then resolve_slots db installed forbidden rest to_install visited
      else (case resolve_dependencies db installed forbidden dep_name visited of
              (sub_deps, visited') \<Rightarrow>
                resolve_slots db installed forbidden rest
                  (append_new (append_new to_install sub_deps) [dep_name]) visited'))"
  by pat_completeness auto

text \<open>
  The recursion is nested through the visited set: the loop continues with the set the
  recursive call returns. Wherever the function is defined that set only grows, which is
  what the termination order (catalog names not yet visited, then loop length) needs.
\<close>

lemma resolve_visited_mono_dom:
  "resolve_dependencies_resolve_slots_dom (Inl (db, installed, forbidden, nm, visited)) \<Longrightarrow>
     visited \<subseteq> snd (resolve_dependencies db installed forbidden nm visited)"
  "resolve_dependencies_resolve_slots_dom (Inr (db, installed, forbidden, slots, to_install, visited)) \<Longrightarrow>
     visited \<subseteq> snd (resolve_slots db installed forbidden slots to_install visited)"
proof (induct rule: resolve_dependencies_resolve_slots.pinduct)
  case (1 db installed forbidden nm visited)
  then show ?case
    by (auto simp: resolve_dependencies.psimps split: option.splits)
next
  case (2 db installed forbidden to_install visited)
  then show ?case by (simp add: resolve_slots.psimps)
next
  case (3 db installed forbidden dep_name constraint rest to_install visited)
  then show ?case
    by (auto simp: resolve_slots.psimps split: prod.splits) (metis subsetD)+
qed

termination resolve_dependencies
proof (relation "measures [
    (\<lambda>x. case x of Inl (db, installed, forbidden, nm, visited) \<Rightarrow> card (fmdom' db - visited)
                  | Inr (db, installed, forbidden, slots, to_install, visited) \<Rightarrow> card (fmdom' db - visited)),
    (\<lambda>x. case x of Inl _ \<Rightarrow> 0 | Inr (db, installed, forbidden, slots, to_install, visited) \<Rightarrow> Suc (length slots))]",
    goal_cases)
  case 1
  then show ?case by simp
next
  case (2 db installed forbidden nm visited pkg)
  then have "nm \<in> fmdom' db - visited" by (simp add: fmdom'I)
  then have "card (fmdom' db - insert nm visited) < card (fmdom' db - visited)"
    by (intro psubset_card_mono) auto
  then show ?case by simp
next
  case 3 then show ?case by simp
next
  case 4 then show ?case by simp
next
  case 5 then show ?case by simp
next
  case 6 then show ?case by simp
next
  case (7 db installed forbidden dep_name constraint rest to_install visited sub_deps visited')
  from 7(5) 7(4) have "visited \<subseteq> visited'"
    using resolve_visited_mono_dom(1)[of db installed forbidden dep_name visited] by (metis snd_conv)
  then have "card (fmdom' db - visited') \<le> card (fmdom' db - visited)"
    by (intro card_mono) auto
  then show ?case by auto
qed

text \<open>The call \<^verbatim>\<open>self._resolve_dependencies(name)\<close>: \<^verbatim>\<open>visited\<close> starts as the empty set.\<close>

definition resolve :: "catalog \<Rightarrow> string set \<Rightarrow> string set \<Rightarrow> string \<Rightarrow> string list" where
  "resolve db installed forbidden nm = fst (resolve_dependencies db installed forbidden nm {})"

text \<open>
  A dependency slot is skipped (the three \<^verbatim>\<open>continue\<close> branches of the loop) when its name
  is forbidden, installed, or installed under the transitional name with suffix \<^verbatim>\<open>t64\<close>.
  \<open>needs p d\<close>: package \<open>p\<close> has a catalog record with a slot \<open>d\<close> that is not skipped.
\<close>

definition skipped :: "string set \<Rightarrow> string set \<Rightarrow> string \<Rightarrow> bool" where
  "skipped installed forbidden d \<longleftrightarrow>
     d \<in> forbidden \<or> d \<in> installed \<or> d @ ''t64'' \<in> installed"

definition needs :: "catalog \<Rightarrow> string set \<Rightarrow> string set \<Rightarrow> string \<Rightarrow> string \<Rightarrow> bool" where
  "needs db installed forbidden p d \<longleftrightarrow>
     (case fmlookup db p of
        None \<Rightarrow> False
      | Some pkg \<Rightarrow> d \<in> fst ` set (depends pkg) \<and> \<not> skipped installed forbidden d)"

text \<open>Predicates used to state the invariants of the traversal.\<close>

definition frame_ok :: "string set \<Rightarrow> string list \<Rightarrow> string list \<times> string set \<Rightarrow> bool" where
  "frame_ok visited to_install r \<longleftrightarrow>
     visited \<subseteq> snd r \<and> prefix to_install (fst r) \<and>
     set (fst r) \<subseteq> set to_install \<union> snd r \<and> snd r - visited \<subseteq> set (fst r)"

definition closed_ok ::
  "catalog \<Rightarrow> string set \<Rightarrow> string set \<Rightarrow> string set \<Rightarrow> string list \<times> string set \<Rightarrow> bool" where
  "closed_ok db installed forbidden visited r \<longleftrightarrow>
     (\<forall>p \<in> snd r - visited. \<forall>d. needs db installed forbidden p d \<longrightarrow> d \<in> set (fst r))"

text \<open>
  \<open>precedes a b xs\<close>: \<open>b\<close> occurs in \<open>xs\<close> and \<open>a\<close> occurs before its first occurrence.
\<close>

definition precedes :: "string \<Rightarrow> string \<Rightarrow> string list \<Rightarrow> bool" where
  "precedes a b xs \<longleftrightarrow> b \<in> set xs \<and> a \<in> set (takeWhile (\<lambda>x. x \<noteq> b) xs)"

text \<open>
  No name that \<open>root\<close> reaches through dependency slots that are not skipped (\<open>root\<close>
  included) reaches itself through such slots.
\<close>

definition acyclic_needs :: "catalog \<Rightarrow> string set \<Rightarrow> string set \<Rightarrow> string \<Rightarrow> bool" where
  "acyclic_needs db installed forbidden root \<longleftrightarrow>
     (\<forall>x. (needs db installed forbidden)\<^sup>*\<^sup>* root x \<longrightarrow> \<not> (needs db installed forbidden)\<^sup>+\<^sup>+ x x)"

text \<open>
  Invariants of the order of the returned list. \<open>ordered_ok base out\<close>: every unskipped
  dependency of a listed name is in \<open>base\<close> or precedes the name. \<open>visited_closed seen owner\<close>:
  every visited name has all its unskipped dependencies visited, unless it is still being
  expanded (it reaches \<open>owner\<close>). \<open>slot_pre\<close>: the state of the loop over the slots of \<open>owner\<close>.
\<close>

definition ordered_ok ::
  "catalog \<Rightarrow> string set \<Rightarrow> string set \<Rightarrow> string set \<Rightarrow> string list \<Rightarrow> bool" where
  "ordered_ok db installed forbidden base out \<longleftrightarrow>
     (\<forall>n \<in> set out. \<forall>e. needs db installed forbidden n e \<longrightarrow> e \<in> base \<or> precedes e n out)"

definition visited_closed ::
  "catalog \<Rightarrow> string set \<Rightarrow> string set \<Rightarrow> string set \<Rightarrow> string \<Rightarrow> bool" where
  "visited_closed db installed forbidden seen owner \<longleftrightarrow>
     (\<forall>p \<in> seen. \<forall>e. needs db installed forbidden p e \<longrightarrow>
        e \<in> seen \<or> (needs db installed forbidden)\<^sup>*\<^sup>* p owner)"

definition slot_pre ::
  "catalog \<Rightarrow> string set \<Rightarrow> string set \<Rightarrow> string \<Rightarrow> string set \<Rightarrow> (string \<times> string) list
     \<Rightarrow> string list \<Rightarrow> string set \<Rightarrow> bool" where
  "slot_pre db installed forbidden owner base slots acc seen \<longleftrightarrow>
     owner \<in> seen \<and> base \<subseteq> seen \<and> owner \<notin> base
     \<and> (\<forall>d \<in> fst ` set slots. \<not> skipped installed forbidden d \<longrightarrow> needs db installed forbidden owner d)
     \<and> seen - insert owner base \<subseteq> set acc
     \<and> ordered_ok db installed forbidden base acc
     \<and> (\<forall>x \<in> set acc. (needs db installed forbidden)\<^sup>+\<^sup>+ owner x)
     \<and> visited_closed db installed forbidden seen owner
     \<and> distinct acc"

section \<open>Catalog parser\<close>

text \<open>
  \<^verbatim>\<open>PackageDatabase._parse_packages\<close>. Strings are lists of 8-bit characters. The
  characters that Python counts as whitespace in \<^verbatim>\<open>str.strip()\<close> and in the regular expression
  class \<^verbatim>\<open>\s\<close> are, in this range, the codes 9 to 13, 28 to 32, 133 and 160.
\<close>

definition isspace :: "char \<Rightarrow> bool" where
  "isspace c \<longleftrightarrow>
     c \<in> {CHR 0x09, CHR 0x0A, CHR 0x0B, CHR 0x0C, CHR 0x0D, CHR 0x1C, CHR 0x1D, CHR 0x1E, CHR 0x1F,
          CHR 0x20, CHR 0x85, CHR 0xA0}"

text \<open>
  \<^verbatim>\<open>s.strip()\<close>: leading and trailing whitespace removed.
\<close>

definition strip :: "string \<Rightarrow> string" where
  "strip s = rev (dropWhile isspace (rev (dropWhile isspace s)))"

text \<open>
  \<^verbatim>\<open>s.split(sep)\<close> for a non-empty separator: the text is scanned from the left, every
  occurrence of the separator ends a piece, and the scan resumes after it. \<open>cur\<close> is the piece
  being collected.
\<close>

function split_sep :: "string \<Rightarrow> string \<Rightarrow> string \<Rightarrow> string list" where
  "split_sep sep cur [] = [cur]"
| "split_sep sep cur (c # cs) =
     (if sep \<noteq> [] \<and> prefix sep (c # cs)
      then cur # split_sep sep [] (drop (length sep) (c # cs))
      else split_sep sep (cur @ [c]) cs)"
  by pat_completeness auto
termination
  by (relation "measure (\<lambda>(sep, cur, s). length s)") (auto simp: neq_Nil_conv)

definition split :: "string \<Rightarrow> string \<Rightarrow> string list" where
  "split s sep = split_sep sep [] s"

text \<open>
  \<^verbatim>\<open>line.split(':', 1)\<close>: the text before the first colon and the text after it, or the
  line alone when it holds no colon.
\<close>

definition split_once :: "string \<Rightarrow> char \<Rightarrow> string list" where
  "split_once s c =
     (if c \<in> set s then [takeWhile (\<lambda>x. x \<noteq> c) s, tl (dropWhile (\<lambda>x. x \<noteq> c) s)] else [s])"

text \<open>
  The tuple assignment \<^verbatim>\<open>key, value = line.split(':', 1)\<close> raises when the split does not
  give two pieces; the error is a value of the model.
\<close>

datatype parse_error = UnpackError

text \<open>
  One iteration of the loop over the lines of a stanza: an empty line or a line without a
  colon is passed over, any other line sets \<^verbatim>\<open>pkg_data[key.strip()] = value.strip()\<close>.
\<close>

definition parse_line :: "(string \<rightharpoonup> string) \<Rightarrow> string \<Rightarrow> parse_error + (string \<rightharpoonup> string)" where
  "parse_line pkg_data line =
     (if line = [] \<or> CHR '':'' \<notin> set line then Inr pkg_data
      else (case split_once line (CHR '':'') of
              [key, v] \<Rightarrow> Inr (pkg_data(strip key \<mapsto> strip v))
            | _ \<Rightarrow> Inl UnpackError))"

fun parse_lines :: "(string \<rightharpoonup> string) \<Rightarrow> string list \<Rightarrow> parse_error + (string \<rightharpoonup> string)" where
  "parse_lines pkg_data [] = Inr pkg_data"
| "parse_lines pkg_data (line # lines) =
     (case parse_line pkg_data line of
        Inl e \<Rightarrow> Inl e
      | Inr pkg_data' \<Rightarrow> parse_lines pkg_data' lines)"

text \<open>
  \<^verbatim>\<open>re.match(r'^([^\s(]+)(?:\s*\(([^)]+)\))?', dep)\<close>. Group 1 is the longest prefix without
  whitespace and without an opening parenthesis; it must not be empty. Shortening it never
  lets the optional part match, since that part starts with whitespace or a parenthesis. The
  optional part is whitespace, an opening parenthesis, a non-empty run of characters other
  than the closing parenthesis (group 2) and the closing parenthesis. The result is
  \<open>None\<close> when there is no match, otherwise group 1 and group 2 (\<open>None\<close> when the optional part
  did not take part in the match).
\<close>

definition match_dep :: "string \<Rightarrow> (string \<times> string option) option" where
  "match_dep dep =
     (let dep_name = takeWhile (\<lambda>c. \<not> isspace c \<and> c \<noteq> CHR ''('') dep;
          after = dropWhile isspace (drop (length dep_name) dep)
      in if dep_name = [] then None
         else Some (dep_name,
           (case after of
              [] \<Rightarrow> None
            | c # body \<Rightarrow>
                if c = CHR ''(''
                then (let inner = takeWhile (\<lambda>x. x \<noteq> CHR '')'') body
                      in if inner \<noteq> [] \<and> drop (length inner) body \<noteq> [] then Some inner else None)
                else None)))"

text \<open>
  The loop over the dependency slots: each slot is stripped and matched; a match appends
  \<^verbatim>\<open>(match.group(1), match.group(2) or '')\<close>, a slot without a match appends nothing.
\<close>

fun parse_deps :: "(string \<times> string) list \<Rightarrow> string list \<Rightarrow> (string \<times> string) list" where
  "parse_deps depends' [] = depends'"
| "parse_deps depends' (dep # deps) =
     (case match_dep (strip dep) of
        None \<Rightarrow> parse_deps depends' deps
      | Some (dep_name, group2) \<Rightarrow>
          parse_deps (depends' @ [(dep_name, case group2 of None \<Rightarrow> [] | Some g \<Rightarrow> g)]) deps)"

definition parse_depends :: "string \<Rightarrow> (string \<times> string) list" where
  "parse_depends v = parse_deps [] (split v '','')"

text \<open>
  \<^verbatim>\<open>pkg_data.get(key, default)\<close>.
\<close>

definition get_default :: "(string \<rightharpoonup> string) \<Rightarrow> string \<Rightarrow> string \<Rightarrow> string" where
  "get_default pkg_data key dflt = (case pkg_data key of None \<Rightarrow> dflt | Some v \<Rightarrow> v)"

text \<open>
  The body of the loop over the stanzas: \<open>Inr None\<close> when the stanza is passed over (it is
  blank, or it has no \<^verbatim>\<open>Package\<close> key), otherwise the record built from it.
\<close>

definition parse_entry :: "string \<Rightarrow> parse_error + Package option" where
  "parse_entry entry =
     (if strip entry = [] then Inr None
      else (case parse_lines Map.empty (split entry [CHR 0x0A]) of
              Inl e \<Rightarrow> Inl e
            | Inr pkg_data \<Rightarrow>
                (case pkg_data ''Package'' of
                   None \<Rightarrow> Inr None
                 | Some nm \<Rightarrow>
                     Inr (Some \<lparr>name = nm,
                                version = get_default pkg_data ''Version'' [],
                                architecture = get_default pkg_data ''Architecture'' ''amd64'',
                                filename = get_default pkg_data ''Filename'' [],
                                depends = (case pkg_data ''Depends'' of
                                             None \<Rightarrow> []
                                           | Some v \<Rightarrow> parse_depends v)\<rparr>))))"

text \<open>
  The loop over the stanzas: \<^verbatim>\<open>packages[pkg.name] = pkg\<close>.
\<close>

fun parse_entries :: "catalog \<Rightarrow> string list \<Rightarrow> parse_error + catalog" where
  "parse_entries packages [] = Inr packages"
| "parse_entries packages (entry # entries) =
     (case parse_entry entry of
        Inl e \<Rightarrow> Inl e
      | Inr None \<Rightarrow> parse_entries packages entries
      | Inr (Some pkg) \<Rightarrow> parse_entries (fmupd (name pkg) pkg packages) entries)"

definition parse_packages :: "string \<Rightarrow> parse_error + catalog" where
  "parse_packages content = parse_entries fmempty (split content [CHR 0x0A, CHR 0x0A])"

subsection \<open>Vocabulary for the properties of the parser\<close>

text \<open>
  The keys of a stanza: for every line that holds a colon, the stripped text before its
  first colon.
\<close>

definition line_keys :: "string list \<Rightarrow> string set" where
  "line_keys lines =
     (\<lambda>line. strip (takeWhile (\<lambda>x. x \<noteq> CHR '':'') line)) ` set (filter (\<lambda>line. CHR '':'' \<in> set line) lines)"

definition stanza_keys :: "string \<Rightarrow> string set" where
  "stanza_keys entry = line_keys (split entry [CHR 0x0A])"

text \<open>
  The first whitespace-delimited token of a text.
\<close>

definition first_token :: "string \<Rightarrow> string" where
  "first_token s = takeWhile (\<lambda>c. \<not> isspace c) (dropWhile isspace s)"

text \<open>
  The pairs that one dependency slot contributes to the list.
\<close>

definition slot_pairs :: "string \<Rightarrow> (string \<times> string) list" where
  "slot_pairs slot =
     (case match_dep (strip slot) of
        None \<Rightarrow> []
      | Some (dep_name, group2) \<Rightarrow> [(dep_name, case group2 of None \<Rightarrow> [] | Some g \<Rightarrow> g)])"

text \<open>
  The name part of a stripped slot: its longest prefix without whitespace and without an
  opening parenthesis.
\<close>

definition name_part :: "string \<Rightarrow> string" where
  "name_part s = takeWhile (\<lambda>c. \<not> isspace c \<and> c \<noteq> CHR ''('') s"

text \<open>
  \<open>has_group s n c\<close>: in \<open>s\<close> the name \<open>n\<close> is followed by optional whitespace and a
  parenthesized group with the non-empty content \<open>c\<close>, closed by the first closing
  parenthesis.
\<close>

definition has_group :: "string \<Rightarrow> string \<Rightarrow> string \<Rightarrow> bool" where
  "has_group s n c \<longleftrightarrow>
     (\<exists>ws rest. s = n @ ws @ [CHR ''(''] @ c @ [CHR '')''] @ rest
        \<and> (\<forall>w \<in> set ws. isspace w) \<and> c \<noteq> [] \<and> CHR '')'' \<notin> set c)"

section \<open>Installing a package\<close>

text \<open>
  \<^verbatim>\<open>PackageInstaller.install\<close>. The answer typed at a prompt is accepted when
  \<^verbatim>\<open>response.strip().lower()\<close> is \<^verbatim>\<open>yes\<close> or \<^verbatim>\<open>y\<close>. \<open>lower\<close> is \<^verbatim>\<open>str.lower()\<close> on 8-bit
  characters: the letters A to Z and the accented capitals (codes 192 to 222 without 215)
  move up by 32.
\<close>

definition lower :: "string \<Rightarrow> string" where
  "lower s =
     map (\<lambda>c. if (of_char c :: nat) \<in> {65..90} \<union> ({192..222} - {215})
              then char_of (of_char c + 32 :: nat) else c) s"

definition is_yes :: "string \<Rightarrow> bool" where
  "is_yes response \<longleftrightarrow> lower (strip response) \<in> {''yes'', ''y''}"

text \<open>
  What \<^verbatim>\<open>install\<close> does, in order: the messages it prints, the prompts it shows and its
  calls of \<^verbatim>\<open>_install_single\<close>.
\<close>

datatype event =
    ProtectedError string
  | NotFound string
  | AlreadyInstalled string
  | AskReinstall
  | Analyzing string
  | NeedDependencies "string list"
  | AskContinue
  | Cancelled
  | InstallingDependencies
  | InstallingDependency string
  | InstallSingle string
  | DependencyFailed string
  | AllSatisfied
  | AskInstall string
  | InstallingMain string

text \<open>
  The loop over the dependencies to install. \<open>single k n\<close> is the result of the \<open>k\<close>-th
  call of \<^verbatim>\<open>_install_single\<close> in this run, made for the name \<open>n\<close> (the download and
  \<^verbatim>\<open>dpkg\<close> are outside the model).
\<close>

fun install_dependencies :: "(nat \<Rightarrow> string \<Rightarrow> bool) \<Rightarrow> nat \<Rightarrow> string list \<Rightarrow> event list" where
  "install_dependencies single k [] = []"
| "install_dependencies single k (dep_name # rest) =
     [InstallingDependency dep_name, InstallSingle dep_name]
       @ (if single k dep_name then [] else [DependencyFailed dep_name])
       @ install_dependencies single (Suc k) rest"

text \<open>
  \<open>install db installed answer single nm\<close> returns the result of \<^verbatim>\<open>install(nm)\<close> and its
  events. \<open>installed\<close> holds the keys of \<^verbatim>\<open>self.installed\<close> and \<open>answer k\<close> is the text typed at
  the \<open>k\<close>-th prompt of this run.
\<close>

definition install ::
  "catalog \<Rightarrow> string set \<Rightarrow> (nat \<Rightarrow> string) \<Rightarrow> (nat \<Rightarrow> string \<Rightarrow> bool) \<Rightarrow> string
     \<Rightarrow> bool \<times> event list" where
  "install db installed answer single nm =
     (if nm \<in> FORBIDDEN_PACKAGES then (False, [ProtectedError nm])
      else (case fmlookup db nm of
              None \<Rightarrow> (False, [NotFound nm])
            | Some pkg \<Rightarrow>
                (let asked = (if nm \<in> installed then [AlreadyInstalled nm, AskReinstall] else []);
                     k = (if nm \<in> installed then 1 else 0)
                 in if nm \<in> installed \<and> \<not> is_yes (answer 0) then (True, asked)
                    else (let deps_to_install = resolve db installed FORBIDDEN_PACKAGES nm
                          in if deps_to_install \<noteq> []
                             then (if \<not> is_yes (answer k)
                                   then (False, asked @ [Analyzing nm, NeedDependencies deps_to_install,
                                            AskContinue, Cancelled])
                                   else (single (length deps_to_install) nm,
                                         asked @ [Analyzing nm, NeedDependencies deps_to_install,
                                            AskContinue, InstallingDependencies]
                                           @ install_dependencies single 0 deps_to_install
                                           @ [InstallingMain nm, InstallSingle nm]))
                             else (if \<not> is_yes (answer k)
                                   then (False, asked @ [Analyzing nm, AllSatisfied, AskInstall nm])
                                   else (single 0 nm,
                                         asked @ [Analyzing nm, AllSatisfied, AskInstall nm,
                                            InstallingMain nm, InstallSingle nm]))))))"

section \<open>Saving the cache\<close>








section \<open>Example catalogs\<close>

text \<open>A catalog record with the given name and dependency names (no constraints).\<close>

definition example_pkg :: "string \<Rightarrow> string list \<Rightarrow> Package" where
  "example_pkg n ds =
     \<lparr>name = n, version = ''1.0'', architecture = ''amd64'', filename = n @ ''.deb'',
      depends = map (\<lambda>d. (d, [])) ds\<rparr>"

text \<open>The two-package cycle: A depends on B and B depends on A.\<close>

definition cycle_catalog :: catalog where
  "cycle_catalog =
     fmupd ''A'' (example_pkg ''A'' [''B'']) (fmupd ''B'' (example_pkg ''B'' [''A'']) fmempty)"

text \<open>A depends on the forbidden libc6 (which has a record and a dependency Z) and on X.\<close>

definition forbidden_slot_catalog :: catalog where
  "forbidden_slot_catalog =
     fmupd ''A'' (example_pkg ''A'' [''libc6'', ''X''])
       (fmupd ''libc6'' (example_pkg ''libc6'' [''Z''])
         (fmupd ''X'' (example_pkg ''X'' []) (fmupd ''Z'' (example_pkg ''Z'' []) fmempty)))"

text \<open>A depends on foo, bar and baz; foo and bar have records with dependencies of their own.\<close>

definition installed_slot_catalog :: catalog where
  "installed_slot_catalog =
     fmupd ''A'' (example_pkg ''A'' [''foo'', ''bar'', ''baz''])
       (fmupd ''foo'' (example_pkg ''foo'' [''Q''])
         (fmupd ''bar'' (example_pkg ''bar'' [''R''])
           (fmupd ''baz'' (example_pkg ''baz'' []) fmempty)))"

text \<open>A depends on X, and X has no record in the catalog.\<close>

definition unknown_dep_catalog :: catalog where
  "unknown_dep_catalog = fmupd ''A'' (example_pkg ''A'' [''X'']) fmempty"

text \<open>The chain: A depends on B, B depends on C, C has no dependencies.\<close>

definition chain_catalog :: catalog where
  "chain_catalog =
     fmupd ''A'' (example_pkg ''A'' [''B''])
       (fmupd ''B'' (example_pkg ''B'' [''C''])
         (fmupd ''C'' (example_pkg ''C'' []) fmempty))"

text \<open>The chain A, B, C beside a cycle that A does not reach: P and Q depend on each other.\<close>

definition side_cycle_catalog :: catalog where
  "side_cycle_catalog =
     fmupd ''A'' (example_pkg ''A'' [''B''])
       (fmupd ''B'' (example_pkg ''B'' [''C''])
         (fmupd ''C'' (example_pkg ''C'' [])
           (fmupd ''P'' (example_pkg ''P'' [''Q''])
             (fmupd ''Q'' (example_pkg ''Q'' [''P'']) fmempty))))"

text \<open>A cycle below the root: A depends on B, B depends on C, C depends on B.\<close>

definition inner_cycle_catalog :: catalog where
  "inner_cycle_catalog =
     fmupd ''A'' (example_pkg ''A'' [''B''])
       (fmupd ''B'' (example_pkg ''B'' [''C''])
         (fmupd ''C'' (example_pkg ''C'' [''B'']) fmempty))"

text \<open>The height of a name in the chain.\<close>

definition chain_rank :: "string \<Rightarrow> nat" where
  "chain_rank s = (if s = ''A'' then 2 else if s = ''B'' then 1 else 0)"

text \<open>
  A catalog with one package, C, which has no dependencies.
\<close>

definition leaf_catalog :: catalog where
  "leaf_catalog = fmupd ''C'' (example_pkg ''C'' []) fmempty"

subsection \<open>Example texts\<close>

text \<open>
  A stanza with a line that has no colon, and without the keys Depends, Version, Filename and Architecture.
\<close>

definition example_stanza :: string where
  "example_stanza =
     ''Package: foo'' @ [CHR 0x0A] @ ''a line without separator'' @ [CHR 0x0A]
       @ ''Priority: optional''"

text \<open>
  A text of three stanzas: the one above, one without a Package key, and an empty one.
\<close>

definition example_text :: string where
  "example_text =
     example_stanza @ [CHR 0x0A, CHR 0x0A] @ ''Version: 2.0'' @ [CHR 0x0A] @ ''Depends: foo''
       @ [CHR 0x0A, CHR 0x0A]"

text \<open>
  A stanza with the keys Package and Depends only, and the record it parses to.
\<close>

definition defaults_stanza :: string where
  "defaults_stanza = ''Package: bar'' @ [CHR 0x0A] @ ''Depends: foo (>= 1.0), baz''"

definition defaults_record :: Package where
  "defaults_record =
     \<lparr>name = ''bar'', version = [], architecture = ''amd64'', filename = [],
      depends = [(''foo'', ''>= 1.0''), (''baz'', [])]\<rparr>"

section \<open>Properties of the resolver\<close>

declare resolve_dependencies.simps [simp del] resolve_slots.simps [simp del]

lemmas resolve_eval = resolve_def example_pkg_def FORBIDDEN_PACKAGES_def
  resolve_dependencies.simps resolve_slots.simps

subsection \<open>Accumulating without duplicates\<close>

lemma set_append_new: "set (append_new acc xs) = set acc \<union> set xs"
  by (induction xs arbitrary: acc) auto

lemma distinct_append_new: "distinct acc \<Longrightarrow> distinct (append_new acc xs)"
  by (induction xs arbitrary: acc) auto

lemma append_new_filter:
  "distinct xs \<Longrightarrow> append_new acc xs = acc @ filter (\<lambda>x. x \<notin> set acc) xs"
proof (induction xs arbitrary: acc)
  case Nil
  then show ?case by simp
next
  case (Cons x xs)
  then have "filter (\<lambda>y. y \<noteq> x \<and> y \<notin> set acc) xs = filter (\<lambda>y. y \<notin> set acc) xs"
    by (intro filter_cong) auto
  with Cons show ?case by simp
qed

lemma prefix_append_new: "prefix acc (append_new acc xs)"
proof (induction xs arbitrary: acc)
  case Nil
  then show ?case by simp
next
  case (Cons x xs)
  show ?case
  proof (cases "x \<in> set acc")
    case True
    then show ?thesis using Cons.IH[of acc] by simp
  next
    case False
    have "prefix acc (acc @ [x])" by simp
    also have "prefix (acc @ [x]) (append_new (acc @ [x]) xs)" by (rule Cons.IH)
    finally show ?thesis using False by simp
  qed
qed

subsection \<open>Invariants of the traversal\<close>

lemma resolve_slots_skip:
  "skipped installed forbidden dep_name \<Longrightarrow>
     resolve_slots db installed forbidden ((dep_name, constraint) # rest) to_install visited =
     resolve_slots db installed forbidden rest to_install visited"
  by (auto simp: skipped_def resolve_slots.simps)

lemma resolve_slots_step:
  assumes "\<not> skipped installed forbidden dep_name"
    and "resolve_dependencies db installed forbidden dep_name visited = (sub_deps, visited')"
  shows "resolve_slots db installed forbidden ((dep_name, constraint) # rest) to_install visited =
     resolve_slots db installed forbidden rest
       (append_new (append_new to_install sub_deps) [dep_name]) visited'"
  using assms by (auto simp: skipped_def resolve_slots.simps)

lemma set_append_new2:
  "set (append_new (append_new acc xs) [d]) = insert d (set acc \<union> set xs)"
  by (simp only: set_append_new) auto

lemma prefix_append_new2: "prefix acc (append_new (append_new acc xs) [d])"
  using prefix_append_new prefix_order.trans by blast

lemma resolve_unsatisfied:
  "\<forall>d\<in>set (fst (resolve_dependencies db installed forbidden nm visited)).
      \<not> skipped installed forbidden d"
  "\<forall>d\<in>set (fst (resolve_slots db installed forbidden slots to_install visited)).
      d \<in> set to_install \<or> \<not> skipped installed forbidden d"
proof (induct db installed forbidden nm visited and db installed forbidden slots to_install visited
       rule: resolve_dependencies_resolve_slots.induct)
  case (1 db installed forbidden nm visited)
  show ?case
  proof (cases "nm \<in> visited")
    case True
    then show ?thesis by (simp add: resolve_dependencies.simps)
  next
    case False
    show ?thesis
    proof (cases "fmlookup db nm")
      case None
      with False show ?thesis by (simp add: resolve_dependencies.simps)
    next
      case (Some pkg)
      from 1[OF False Some] False Some show ?thesis by (simp add: resolve_dependencies.simps)
    qed
  qed
next
  case (2 db installed forbidden to_install visited)
  then show ?case by (simp add: resolve_slots.simps)
next
  case (3 db installed forbidden dep_name constraint rest to_install visited)
  show ?case
  proof (cases "skipped installed forbidden dep_name")
    case True
    then have "dep_name \<in> forbidden \<or> dep_name \<notin> forbidden \<and> dep_name \<in> installed \<or>
       dep_name \<notin> forbidden \<and> dep_name \<notin> installed \<and> dep_name @ ''t64'' \<in> installed"
      by (auto simp: skipped_def)
    with 3(1,2,3) have "\<forall>d\<in>set (fst (resolve_slots db installed forbidden rest to_install visited)).
      d \<in> set to_install \<or> \<not> skipped installed forbidden d" by blast
    with True show ?thesis by (simp only: resolve_slots_skip)
  next
    case False
    then have f: "dep_name \<notin> forbidden" "dep_name \<notin> installed" "dep_name @ ''t64'' \<notin> installed"
      by (auto simp: skipped_def)
    obtain sub_deps visited' where r: "resolve_dependencies db installed forbidden dep_name visited = (sub_deps, visited')"
      by (cases "resolve_dependencies db installed forbidden dep_name visited")
    define acc where "acc = append_new (append_new to_install sub_deps) [dep_name]"
    have sa: "set acc = insert dep_name (set to_install \<union> set sub_deps)"
      unfolding acc_def by (rule set_append_new2)
    from 3(4)[OF f] r have a: "\<forall>d\<in>set sub_deps. \<not> skipped installed forbidden d" by simp
    from 3(5)[OF f r[symmetric]]
    have b: "\<forall>d\<in>set (fst (resolve_slots db installed forbidden rest acc visited')).
        d \<in> set acc \<or> \<not> skipped installed forbidden d" by (simp add: acc_def)
    have "\<forall>d\<in>set (fst (resolve_slots db installed forbidden rest acc visited')).
        d \<in> set to_install \<or> \<not> skipped installed forbidden d"
      using a b False unfolding sa by auto
    then show ?thesis by (simp only: resolve_slots_step[OF False r] acc_def)
  qed
qed

lemma skipped_cases:
  assumes "skipped installed forbidden d"
  obtains (forbidden) "d \<in> forbidden"
  | (installed) "d \<notin> forbidden" "d \<in> installed"
  | (transitional) "d \<notin> forbidden" "d \<notin> installed" "d @ ''t64'' \<in> installed"
  using assms unfolding skipped_def by blast

lemma not_skippedD:
  assumes "\<not> skipped installed forbidden d"
  shows "d \<notin> forbidden" "d \<notin> installed" "d @ ''t64'' \<notin> installed"
  using assms unfolding skipped_def by blast+

lemma resolve_frame:
  "frame_ok (insert nm visited) [] (resolve_dependencies db installed forbidden nm visited)
   \<or> nm \<in> visited \<and> resolve_dependencies db installed forbidden nm visited = ([], visited)"
  "frame_ok visited to_install (resolve_slots db installed forbidden slots to_install visited)"
proof (induct db installed forbidden nm visited and db installed forbidden slots to_install visited
       rule: resolve_dependencies_resolve_slots.induct)
  case (1 db installed forbidden nm visited)
  show ?case
  proof (cases "nm \<in> visited")
    case True
    then show ?thesis by (simp add: resolve_dependencies.simps)
  next
    case False
    show ?thesis
    proof (cases "fmlookup db nm")
      case None
      with False show ?thesis by (simp add: resolve_dependencies.simps frame_ok_def)
    next
      case (Some pkg)
      have "resolve_dependencies db installed forbidden nm visited =
            resolve_slots db installed forbidden (depends pkg) [] (insert nm visited)"
        using False Some by (simp add: resolve_dependencies.simps)
      with 1[OF False Some] show ?thesis by simp
    qed
  qed
next
  case (2 db installed forbidden to_install visited)
  then show ?case by (simp add: resolve_slots.simps frame_ok_def)
next
  case (3 db installed forbidden dep_name constraint rest to_install visited)
  show ?case
  proof (cases "skipped installed forbidden dep_name")
    case True
    have "frame_ok visited to_install (resolve_slots db installed forbidden rest to_install visited)"
      using True
    proof (cases rule: skipped_cases)
      case forbidden
      then show ?thesis by (rule 3(1))
    next
      case installed
      then show ?thesis by (rule 3(2))
    next
      case transitional
      then show ?thesis by (rule 3(3))
    qed
    then show ?thesis by (simp only: resolve_slots_skip[OF True])
  next
    case False
    note f = not_skippedD[OF False]
    obtain sub_deps visited' where r: "resolve_dependencies db installed forbidden dep_name visited = (sub_deps, visited')"
      by (cases "resolve_dependencies db installed forbidden dep_name visited")
    define acc where "acc = append_new (append_new to_install sub_deps) [dep_name]"
    have sa: "set acc = insert dep_name (set to_install \<union> set sub_deps)"
      unfolding acc_def by (rule set_append_new2)
    have p: "prefix to_install acc" unfolding acc_def by (rule prefix_append_new2)
    from 3(4)[OF f] have a: "visited \<subseteq> visited' \<and> dep_name \<in> visited' \<and> set sub_deps \<subseteq> visited' \<and>
      visited' - visited \<subseteq> insert dep_name (set sub_deps)"
      unfolding r frame_ok_def by auto
    obtain out visited'' where s: "resolve_slots db installed forbidden rest acc visited' = (out, visited'')"
      by (cases "resolve_slots db installed forbidden rest acc visited'")
    have "frame_ok visited' acc (resolve_slots db installed forbidden rest acc visited')"
      unfolding acc_def by (rule 3(5)[OF f r[symmetric]])
    then have b: "visited' \<subseteq> visited''" "prefix acc out" "set out \<subseteq> set acc \<union> visited''"
       "visited'' - visited' \<subseteq> set out" unfolding s frame_ok_def by simp_all
    have so: "set acc \<subseteq> set out" using b(2) by (rule set_mono_prefix)
    have c1: "visited \<subseteq> visited''" using a b(1) by blast
    have c2: "prefix to_install out" using p b(2) by (rule prefix_order.trans)
    have c3: "set out \<subseteq> set to_install \<union> visited''"
      using b(3) a b(1) unfolding sa by blast
    have c4: "visited'' - visited \<subseteq> set out"
      using b(4) a so unfolding sa by blast
    have "frame_ok visited to_install (out, visited'')"
      unfolding frame_ok_def using c1 c2 c3 c4 by simp
    then show ?thesis by (simp only: resolve_slots_step[OF False r] acc_def[symmetric] s)
  qed
qed

lemma resolve_closed:
  "closed_ok db installed forbidden visited (resolve_dependencies db installed forbidden nm visited)"
  "closed_ok db installed forbidden visited (resolve_slots db installed forbidden slots to_install visited)
   \<and> (\<forall>d \<in> fst ` set slots. \<not> skipped installed forbidden d \<longrightarrow>
         d \<in> set (fst (resolve_slots db installed forbidden slots to_install visited)))"
proof (induct db installed forbidden nm visited and db installed forbidden slots to_install visited
       rule: resolve_dependencies_resolve_slots.induct)
  case (1 db installed forbidden nm visited)
  show ?case
  proof (cases "nm \<in> visited")
    case True
    then show ?thesis by (simp add: resolve_dependencies.simps closed_ok_def)
  next
    case False
    show ?thesis
    proof (cases "fmlookup db nm")
      case None
      with False show ?thesis by (auto simp: resolve_dependencies.simps closed_ok_def needs_def)
    next
      case (Some pkg)
      define r where "r = resolve_slots db installed forbidden (depends pkg) [] (insert nm visited)"
      have eq: "resolve_dependencies db installed forbidden nm visited = r"
        using False Some by (simp add: resolve_dependencies.simps r_def)
      from 1[OF False Some] have ih: "closed_ok db installed forbidden (insert nm visited) r"
        "\<forall>d \<in> fst ` set (depends pkg). \<not> skipped installed forbidden d \<longrightarrow> d \<in> set (fst r)"
        unfolding r_def by simp_all
      have "d \<in> set (fst r)" if "p \<in> snd r - visited" "needs db installed forbidden p d" for p d
      proof (cases "p = nm")
        case True
        with that(2) Some have "d \<in> fst ` set (depends pkg)" "\<not> skipped installed forbidden d"
          by (simp_all add: needs_def)
        with ih(2) show ?thesis by blast
      next
        case False
        with that(1) have "p \<in> snd r - insert nm visited" by simp
        with ih(1) that(2) show ?thesis unfolding closed_ok_def by blast
      qed
      then show ?thesis unfolding eq closed_ok_def by blast
    qed
  qed
next
  case (2 db installed forbidden to_install visited)
  then show ?case by (simp add: resolve_slots.simps closed_ok_def)
next
  case (3 db installed forbidden dep_name constraint rest to_install visited)
  show ?case
  proof (cases "skipped installed forbidden dep_name")
    case True
    have "closed_ok db installed forbidden visited (resolve_slots db installed forbidden rest to_install visited)
      \<and> (\<forall>d \<in> fst ` set rest. \<not> skipped installed forbidden d \<longrightarrow>
         d \<in> set (fst (resolve_slots db installed forbidden rest to_install visited)))"
      using True
    proof (cases rule: skipped_cases)
      case forbidden
      then show ?thesis by (rule 3(1))
    next
      case installed
      then show ?thesis by (rule 3(2))
    next
      case transitional
      then show ?thesis by (rule 3(3))
    qed
    then show ?thesis using True by (simp add: resolve_slots_skip[OF True])
  next
    case False
    note f = not_skippedD[OF False]
    obtain sub_deps visited' where r: "resolve_dependencies db installed forbidden dep_name visited = (sub_deps, visited')"
      by (cases "resolve_dependencies db installed forbidden dep_name visited")
    define acc where "acc = append_new (append_new to_install sub_deps) [dep_name]"
    have sa: "set acc = insert dep_name (set to_install \<union> set sub_deps)"
      unfolding acc_def by (rule set_append_new2)
    obtain out visited'' where s: "resolve_slots db installed forbidden rest acc visited' = (out, visited'')"
      by (cases "resolve_slots db installed forbidden rest acc visited'")
    have eq: "resolve_slots db installed forbidden ((dep_name, constraint) # rest) to_install visited = (out, visited'')"
      by (simp only: resolve_slots_step[OF False r] acc_def[symmetric] s)
    from 3(4)[OF f] have ih1: "closed_ok db installed forbidden visited (sub_deps, visited')"
      unfolding r .
    from 3(5)[OF f r[symmetric]] have ih2: "closed_ok db installed forbidden visited' (out, visited'')"
      "\<forall>d \<in> fst ` set rest. \<not> skipped installed forbidden d \<longrightarrow> d \<in> set out"
      unfolding acc_def[symmetric] s by simp_all
    have "frame_ok visited' acc (out, visited'')"
      using resolve_frame(2)[of visited' acc db installed forbidden rest] unfolding s .
    then have "set acc \<subseteq> set out" unfolding frame_ok_def using set_mono_prefix by fastforce
    then have so: "dep_name \<in> set out" "set sub_deps \<subseteq> set out" unfolding sa by auto
    have "d \<in> set out" if "p \<in> visited'' - visited" "needs db installed forbidden p d" for p d
    proof (cases "p \<in> visited'")
      case True
      with that ih1 have "d \<in> set sub_deps" unfolding closed_ok_def by auto
      with so show ?thesis by blast
    next
      case False
      with that ih2(1) show ?thesis unfolding closed_ok_def by auto
    qed
    then have "closed_ok db installed forbidden visited (out, visited'')"
      unfolding closed_ok_def by auto
    moreover have "\<forall>d \<in> fst ` set ((dep_name, constraint) # rest).
        \<not> skipped installed forbidden d \<longrightarrow> d \<in> set out"
      using ih2(2) so(1) by auto
    ultimately show ?thesis unfolding eq by simp
  qed
qed

lemma resolve_sound:
  "\<forall>x \<in> set (fst (resolve_dependencies db installed forbidden nm visited)).
      (needs db installed forbidden)\<^sup>+\<^sup>+ nm x"
  "\<forall>x \<in> set (fst (resolve_slots db installed forbidden slots to_install visited)).
      x \<in> set to_install \<or>
      (\<exists>d \<in> fst ` set slots. \<not> skipped installed forbidden d \<and> (needs db installed forbidden)\<^sup>*\<^sup>* d x)"
proof (induct db installed forbidden nm visited and db installed forbidden slots to_install visited
       rule: resolve_dependencies_resolve_slots.induct)
  case (1 db installed forbidden nm visited)
  show ?case
  proof (cases "nm \<in> visited")
    case True
    then show ?thesis by (simp add: resolve_dependencies.simps)
  next
    case False
    show ?thesis
    proof (cases "fmlookup db nm")
      case None
      with False show ?thesis by (simp add: resolve_dependencies.simps)
    next
      case (Some pkg)
      define r where "r = resolve_slots db installed forbidden (depends pkg) [] (insert nm visited)"
      have eq: "resolve_dependencies db installed forbidden nm visited = r"
        using False Some by (simp add: resolve_dependencies.simps r_def)
      have "(needs db installed forbidden)\<^sup>+\<^sup>+ nm x" if "x \<in> set (fst r)" for x
      proof -
        from 1[OF False Some] that obtain d where d: "d \<in> fst ` set (depends pkg)"
          "\<not> skipped installed forbidden d" "(needs db installed forbidden)\<^sup>*\<^sup>* d x"
          unfolding r_def by fastforce
        from d(1,2) Some have "needs db installed forbidden nm d" by (simp add: needs_def)
        then show ?thesis using d(3) by (rule rtranclp_into_tranclp2)
      qed
      then show ?thesis unfolding eq by blast
    qed
  qed
next
  case (2 db installed forbidden to_install visited)
  then show ?case by (simp add: resolve_slots.simps)
next
  case (3 db installed forbidden dep_name constraint rest to_install visited)
  show ?case
  proof (cases "skipped installed forbidden dep_name")
    case True
    have "\<forall>x \<in> set (fst (resolve_slots db installed forbidden rest to_install visited)).
      x \<in> set to_install \<or>
      (\<exists>d \<in> fst ` set rest. \<not> skipped installed forbidden d \<and> (needs db installed forbidden)\<^sup>*\<^sup>* d x)"
      using True
    proof (cases rule: skipped_cases)
      case forbidden
      then show ?thesis by (rule 3(1))
    next
      case installed
      then show ?thesis by (rule 3(2))
    next
      case transitional
      then show ?thesis by (rule 3(3))
    qed
    then have "\<forall>x \<in> set (fst (resolve_slots db installed forbidden rest to_install visited)).
      x \<in> set to_install \<or>
      (\<exists>d \<in> fst ` set ((dep_name, constraint) # rest).
         \<not> skipped installed forbidden d \<and> (needs db installed forbidden)\<^sup>*\<^sup>* d x)"
      by (simp del: rtranclp.simps) metis
    then show ?thesis by (simp only: resolve_slots_skip[OF True])
  next
    case False
    note f = not_skippedD[OF False]
    obtain sub_deps visited' where r: "resolve_dependencies db installed forbidden dep_name visited = (sub_deps, visited')"
      by (cases "resolve_dependencies db installed forbidden dep_name visited")
    define acc where "acc = append_new (append_new to_install sub_deps) [dep_name]"
    have sa: "set acc = insert dep_name (set to_install \<union> set sub_deps)"
      unfolding acc_def by (rule set_append_new2)
    obtain out visited'' where s: "resolve_slots db installed forbidden rest acc visited' = (out, visited'')"
      by (cases "resolve_slots db installed forbidden rest acc visited'")
    have eq: "resolve_slots db installed forbidden ((dep_name, constraint) # rest) to_install visited = (out, visited'')"
      by (simp only: resolve_slots_step[OF False r] acc_def[symmetric] s)
    from 3(4)[OF f] have ih1: "\<forall>x \<in> set sub_deps. (needs db installed forbidden)\<^sup>+\<^sup>+ dep_name x"
      unfolding r by simp
    from 3(5)[OF f r[symmetric]] have ih2: "\<forall>x \<in> set out. x \<in> set acc \<or>
      (\<exists>d \<in> fst ` set rest. \<not> skipped installed forbidden d \<and> (needs db installed forbidden)\<^sup>*\<^sup>* d x)"
      unfolding acc_def[symmetric] s by simp
    have "x \<in> set to_install \<or>
      (\<exists>d \<in> fst ` set ((dep_name, constraint) # rest).
          \<not> skipped installed forbidden d \<and> (needs db installed forbidden)\<^sup>*\<^sup>* d x)"
      if "x \<in> set out" for x
    proof -
      from ih2 that have "x \<in> set acc \<or>
        (\<exists>d \<in> fst ` set rest. \<not> skipped installed forbidden d \<and> (needs db installed forbidden)\<^sup>*\<^sup>* d x)"
        by (rule bspec)
      then consider "x \<in> set to_install" | "x = dep_name" | "x \<in> set sub_deps"
        | "\<exists>d \<in> fst ` set rest. \<not> skipped installed forbidden d \<and> (needs db installed forbidden)\<^sup>*\<^sup>* d x"
        unfolding sa by (elim disjE insertE UnE) auto
      then show ?thesis
      proof cases
        case 1
        then show ?thesis by simp
      next
        case 2
        with False show ?thesis by auto
      next
        case 3
        with ih1 have "(needs db installed forbidden)\<^sup>*\<^sup>* dep_name x"
          by (simp add: tranclp_into_rtranclp)
        with False show ?thesis by auto
      next
        case 4
        then show ?thesis by auto
      qed
    qed
    then show ?thesis unfolding eq by simp
  qed
qed

lemma resolve_distinct:
  "distinct (fst (resolve_dependencies db installed forbidden nm visited))"
  "distinct to_install \<Longrightarrow> distinct (fst (resolve_slots db installed forbidden slots to_install visited))"
proof (induct db installed forbidden nm visited and db installed forbidden slots to_install visited
       rule: resolve_dependencies_resolve_slots.induct)
  case (1 db installed forbidden nm visited)
  show ?case
  proof (cases "nm \<in> visited")
    case True
    then show ?thesis by (simp add: resolve_dependencies.simps)
  next
    case False
    show ?thesis
    proof (cases "fmlookup db nm")
      case None
      with False show ?thesis by (simp add: resolve_dependencies.simps)
    next
      case (Some pkg)
      from 1[OF False Some] False Some show ?thesis by (simp add: resolve_dependencies.simps)
    qed
  qed
next
  case (2 db installed forbidden to_install visited)
  then show ?case by (simp add: resolve_slots.simps)
next
  case (3 db installed forbidden dep_name constraint rest to_install visited)
  show ?case
  proof (cases "skipped installed forbidden dep_name")
    case True
    have "distinct (fst (resolve_slots db installed forbidden rest to_install visited))"
      using True
    proof (cases rule: skipped_cases)
      case forbidden
      then show ?thesis using 3(6) by (rule 3(1))
    next
      case installed
      then show ?thesis using 3(6) by (rule 3(2))
    next
      case transitional
      then show ?thesis using 3(6) by (rule 3(3))
    qed
    then show ?thesis by (simp only: resolve_slots_skip[OF True])
  next
    case False
    note f = not_skippedD[OF False]
    obtain sub_deps visited' where r: "resolve_dependencies db installed forbidden dep_name visited = (sub_deps, visited')"
      by (cases "resolve_dependencies db installed forbidden dep_name visited")
    have d: "distinct (append_new (append_new to_install sub_deps) [dep_name])"
      using 3(6) by (intro distinct_append_new)
    from 3(5)[OF f r[symmetric] d] show ?thesis by (simp only: resolve_slots_step[OF False r])
  qed
qed

lemma resolve_reaches:
  assumes "(needs db installed forbidden)\<^sup>+\<^sup>+ root d"
  shows "d \<in> set (resolve db installed forbidden root)"
proof -
  define r where "r = resolve_dependencies db installed forbidden root {}"
  have fr: "frame_ok {root} [] r"
    using resolve_frame(1)[of root "{}" db installed forbidden] unfolding r_def by simp
  have cl: "closed_ok db installed forbidden {} r"
    unfolding r_def by (rule resolve_closed(1))
  have root: "root \<in> snd r" and sub: "set (fst r) \<subseteq> snd r"
    using fr unfolding frame_ok_def by auto
  from assms have "d \<in> set (fst r)"
  proof (induct rule: tranclp_induct)
    case (base y)
    with cl root show ?case unfolding closed_ok_def by auto
  next
    case (step y z)
    with sub have "y \<in> snd r" by blast
    with cl step(2) show ?case unfolding closed_ok_def by auto
  qed
  then show ?thesis unfolding resolve_def r_def .
qed

lemma set_resolve:
  "set (resolve db installed forbidden root) = {d. (needs db installed forbidden)\<^sup>+\<^sup>+ root d}"
  using resolve_sound(1)[of db installed forbidden root "{}"] resolve_reaches[of db installed forbidden root]
  unfolding resolve_def by blast

subsection \<open>Forbidden slots\<close>

text \<open>
  C5. For every catalog, installed set, forbidden set and root, the list returned by the
  resolver contains no forbidden name. A forbidden slot is never descended into: no name
  other than the resolved one itself is visited (looked up and expanded) if it is
  forbidden, and a forbidden slot at the head of the loop leaves the accumulated list and
  the visited set as they are, whether or not the forbidden name has a catalog record.
\<close>

theorem resolve_excludes_forbidden:
  "set (resolve db installed forbidden root) \<inter> forbidden = {}
   \<and> (snd (resolve_dependencies db installed forbidden nm visited) - insert nm visited) \<inter> forbidden = {}
   \<and> (dep_name \<in> forbidden \<longrightarrow>
        resolve_slots db installed forbidden ((dep_name, constraint) # rest) to_install seen =
        resolve_slots db installed forbidden rest to_install seen)"
proof (intro conjI impI)
  show "set (resolve db installed forbidden root) \<inter> forbidden = {}"
    using resolve_unsatisfied(1)[of db installed forbidden root "{}"]
    unfolding resolve_def skipped_def by blast
next
  have "snd (resolve_dependencies db installed forbidden nm visited) - insert nm visited
        \<subseteq> set (fst (resolve_dependencies db installed forbidden nm visited))"
    using resolve_frame(1)[of nm visited db installed forbidden] unfolding frame_ok_def by auto
  then show "(snd (resolve_dependencies db installed forbidden nm visited) - insert nm visited)
        \<inter> forbidden = {}"
    using resolve_unsatisfied(1)[of db installed forbidden nm visited]
    unfolding skipped_def by blast
next
  assume "dep_name \<in> forbidden"
  then show "resolve_slots db installed forbidden ((dep_name, constraint) # rest) to_install seen =
        resolve_slots db installed forbidden rest to_install seen"
    by (simp add: resolve_slots.simps)
qed

theorem resolve_excludes_forbidden_witness:
  "resolve forbidden_slot_catalog {} FORBIDDEN_PACKAGES ''A'' = [''X'']
   \<and> set (resolve forbidden_slot_catalog {} FORBIDDEN_PACKAGES ''A'') \<inter> FORBIDDEN_PACKAGES = {}
   \<and> (snd (resolve_dependencies forbidden_slot_catalog {} FORBIDDEN_PACKAGES ''A'' {}) - insert ''A'' {})
        \<inter> FORBIDDEN_PACKAGES = {}
   \<and> ''libc6'' \<in> FORBIDDEN_PACKAGES
   \<and> resolve_slots forbidden_slot_catalog {} FORBIDDEN_PACKAGES [(''libc6'', []), (''X'', [])] [] {''A''} =
       resolve_slots forbidden_slot_catalog {} FORBIDDEN_PACKAGES [(''X'', [])] [] {''A''}"
  using resolve_excludes_forbidden[of forbidden_slot_catalog "{}" FORBIDDEN_PACKAGES "''A''" "''A''" "{}"
      "''libc6''" "[]" "[(''X'', [])]" "[]" "{''A''}"]
  by (simp add: resolve_eval forbidden_slot_catalog_def)

subsection \<open>Installed and transitional slots\<close>

text \<open>
  C6. A dependency name that is installed, or whose name with the suffix \<^verbatim>\<open>t64\<close> is
  installed, is not in the returned list, is never visited on account of a slot, and its
  slot leaves the accumulated list and the visited set unchanged (its sub-dependencies are
  not expanded).
\<close>

theorem resolve_excludes_installed:
  "(\<forall>d \<in> set (resolve db installed forbidden root). d \<notin> installed \<and> d @ ''t64'' \<notin> installed)
   \<and> (\<forall>d \<in> snd (resolve_dependencies db installed forbidden nm visited) - insert nm visited.
         d \<notin> installed \<and> d @ ''t64'' \<notin> installed)
   \<and> (dep_name \<in> installed \<or> dep_name @ ''t64'' \<in> installed \<longrightarrow>
        resolve_slots db installed forbidden ((dep_name, constraint) # rest) to_install seen =
        resolve_slots db installed forbidden rest to_install seen)"
proof (intro conjI impI)
  show "\<forall>d \<in> set (resolve db installed forbidden root). d \<notin> installed \<and> d @ ''t64'' \<notin> installed"
    using resolve_unsatisfied(1)[of db installed forbidden root "{}"]
    unfolding resolve_def skipped_def by blast
next
  have "snd (resolve_dependencies db installed forbidden nm visited) - insert nm visited
        \<subseteq> set (fst (resolve_dependencies db installed forbidden nm visited))"
    using resolve_frame(1)[of nm visited db installed forbidden] unfolding frame_ok_def by auto
  then show "\<forall>d \<in> snd (resolve_dependencies db installed forbidden nm visited) - insert nm visited.
         d \<notin> installed \<and> d @ ''t64'' \<notin> installed"
    using resolve_unsatisfied(1)[of db installed forbidden nm visited]
    unfolding skipped_def by blast
next
  assume "dep_name \<in> installed \<or> dep_name @ ''t64'' \<in> installed"
  then have "skipped installed forbidden dep_name" unfolding skipped_def by blast
  then show "resolve_slots db installed forbidden ((dep_name, constraint) # rest) to_install seen =
        resolve_slots db installed forbidden rest to_install seen"
    by (rule resolve_slots_skip)
qed

theorem resolve_excludes_installed_witness:
  "resolve installed_slot_catalog {''foot64'', ''bar''} FORBIDDEN_PACKAGES ''A'' = [''baz'']
   \<and> ''foo'' \<notin> set (resolve installed_slot_catalog {''foot64'', ''bar''} FORBIDDEN_PACKAGES ''A'')
   \<and> ''bar'' \<notin> set (resolve installed_slot_catalog {''foot64'', ''bar''} FORBIDDEN_PACKAGES ''A'')
   \<and> snd (resolve_dependencies installed_slot_catalog {''foot64'', ''bar''} FORBIDDEN_PACKAGES ''A'' {})
       = {''A'', ''baz''}
   \<and> ''foo'' @ ''t64'' \<in> {''foot64'', ''bar''}
   \<and> resolve_slots installed_slot_catalog {''foot64'', ''bar''} FORBIDDEN_PACKAGES
        [(''foo'', []), (''bar'', []), (''baz'', [])] [] {''A''} =
       resolve_slots installed_slot_catalog {''foot64'', ''bar''} FORBIDDEN_PACKAGES
        [(''bar'', []), (''baz'', [])] [] {''A''}"
  using resolve_excludes_installed[of installed_slot_catalog "{''foot64'', ''bar''}" FORBIDDEN_PACKAGES
      "''A''" "''A''" "{}" "''foo''" "[]" "[(''bar'', []), (''baz'', [])]" "[]" "{''A''}"]
  by (simp add: resolve_eval installed_slot_catalog_def insert_commute)

subsection \<open>Dependencies without a catalog record\<close>

text \<open>
  C2 as stated fails: a dependency name without a record is not omitted. The resolver
  gets the empty list for it and then appends the name itself. Here A depends on X, X has
  no record, and X is in the result.
\<close>

theorem unresolved_dependency_dropped_counterexample:
  "fmlookup unknown_dep_catalog ''X'' = None \<and> ''X'' \<notin> FORBIDDEN_PACKAGES
   \<and> ''X'' \<in> set (resolve unknown_dep_catalog {} FORBIDDEN_PACKAGES ''A'')"
  by (simp add: resolve_eval unknown_dep_catalog_def)

text \<open>
  C2, amended. A name without a catalog record that the root reaches through dependency
  slots that are not skipped (not forbidden, not installed, not satisfied by a t64 name) is
  not omitted: it is in the returned list. Resolving such a name yields the empty list
  whatever has been visited, so it brings no names of its own into the result.
\<close>

theorem unresolved_dependency_emitted:
  assumes "(needs db installed forbidden)\<^sup>+\<^sup>+ root d" and "fmlookup db d = None"
  shows "d \<in> set (resolve db installed forbidden root)
         \<and> fst (resolve_dependencies db installed forbidden d visited) = []"
proof
  show "d \<in> set (resolve db installed forbidden root)"
    using assms(1) by (rule resolve_reaches)
  show "fst (resolve_dependencies db installed forbidden d visited) = []"
    using assms(2) by (simp add: resolve_dependencies.simps)
qed

theorem unresolved_dependency_emitted_witness:
  "(needs unknown_dep_catalog {} FORBIDDEN_PACKAGES)\<^sup>+\<^sup>+ ''A'' ''X''
   \<and> fmlookup unknown_dep_catalog ''X'' = None
   \<and> ''X'' \<in> set (resolve unknown_dep_catalog {} FORBIDDEN_PACKAGES ''A'')
   \<and> fst (resolve_dependencies unknown_dep_catalog {} FORBIDDEN_PACKAGES ''X'' {''A''}) = []"
proof -
  have "needs unknown_dep_catalog {} FORBIDDEN_PACKAGES ''A'' ''X''"
    by (simp add: needs_def skipped_def unknown_dep_catalog_def example_pkg_def FORBIDDEN_PACKAGES_def)
  then have h1: "(needs unknown_dep_catalog {} FORBIDDEN_PACKAGES)\<^sup>+\<^sup>+ ''A'' ''X''"
    by (rule tranclp.r_into_trancl)
  have h2: "fmlookup unknown_dep_catalog ''X'' = None"
    by (simp add: unknown_dep_catalog_def)
  from unresolved_dependency_emitted[OF h1 h2, of "{''A''}"] h1 h2 show ?thesis by simp
qed

subsection \<open>Cycles\<close>

text \<open>
  C1. On the two-package cycle (A depends on B, B depends on A, nothing installed, the
  forbidden set of the program) the resolver returns, but its result is \<open>[A, B]\<close>:
  the inner call for B finds A already visited, gets the empty list for it, and still
  appends A, since the append is guarded only by "not yet in the list". The root is
  emitted as its own dependency.
\<close>

theorem resolve_cycle_emits_root:
  "resolve cycle_catalog {} FORBIDDEN_PACKAGES ''A'' = [''A'', ''B'']"
  by (simp add: resolve_eval cycle_catalog_def)

subsection \<open>Dependency-first order\<close>

lemma precedes_append_left: "precedes a b xs \<Longrightarrow> precedes a b (xs @ ys)"
  by (auto simp: precedes_def takeWhile_append1)

lemma takeWhile_notin: "b \<notin> set xs \<Longrightarrow> takeWhile (\<lambda>x. x \<noteq> b) xs = xs"
  by (induction xs) auto

lemma takeWhile_append_notin:
  "b \<notin> set xs \<Longrightarrow> takeWhile (\<lambda>x. x \<noteq> b) (xs @ ys) = xs @ takeWhile (\<lambda>x. x \<noteq> b) ys"
  by (induction xs) auto

lemma precedes_append_mixed:
  "b \<notin> set xs \<Longrightarrow> a \<in> set xs \<Longrightarrow> b \<in> set ys \<Longrightarrow> precedes a b (xs @ ys)"
  by (auto simp: precedes_def takeWhile_append_notin)

lemma precedes_append_right:
  "b \<notin> set xs \<Longrightarrow> precedes a b ys \<Longrightarrow> precedes a b (xs @ ys)"
  by (auto simp: precedes_def takeWhile_append_notin)

lemma takeWhile_filter:
  "P b \<Longrightarrow> takeWhile (\<lambda>x. x \<noteq> b) (filter P ys) = filter P (takeWhile (\<lambda>x. x \<noteq> b) ys)"
  by (induction ys) auto

lemma precedes_filter:
  "precedes a b ys \<Longrightarrow> P a \<Longrightarrow> P b \<Longrightarrow> precedes a b (filter P ys)"
  by (auto simp: precedes_def takeWhile_filter)

lemma precedes_prefix: "prefix xs ys \<Longrightarrow> precedes a b xs \<Longrightarrow> precedes a b ys"
  by (auto simp: prefix_def precedes_append_left)

lemma precedes_in: "precedes a b xs \<Longrightarrow> a \<in> set xs \<and> b \<in> set xs"
  by (auto simp: precedes_def dest: set_takeWhileD)

lemma append_new2_form:
  assumes "distinct sub"
  shows "append_new (append_new acc sub) [d] =
     (acc @ filter (\<lambda>x. x \<notin> set acc) sub) @ (if d \<in> set acc \<union> set sub then [] else [d])"
  using assms by (auto simp: append_new_filter)

lemma resolve_frame_call:
  "visited \<subseteq> snd (resolve_dependencies db installed forbidden nm visited)
   \<and> nm \<in> snd (resolve_dependencies db installed forbidden nm visited)
   \<and> set (fst (resolve_dependencies db installed forbidden nm visited))
       \<subseteq> snd (resolve_dependencies db installed forbidden nm visited)
   \<and> snd (resolve_dependencies db installed forbidden nm visited) - visited
       \<subseteq> insert nm (set (fst (resolve_dependencies db installed forbidden nm visited)))"
  using resolve_frame(1)[of nm visited db installed forbidden]
  unfolding frame_ok_def by auto

lemma slot_pre_skip:
  "slot_pre db installed forbidden owner base ((d, c) # rest) acc seen \<Longrightarrow>
   slot_pre db installed forbidden owner base rest acc seen"
  unfolding slot_pre_def by simp

lemma slot_pre_done:
  "slot_pre db installed forbidden owner base [] acc seen \<Longrightarrow>
   ordered_ok db installed forbidden base acc"
  unfolding slot_pre_def by simp

lemma slot_pre_entry:
  assumes "visited_closed db installed forbidden visited nm" "nm \<notin> visited"
    "fmlookup db nm = Some pkg"
  shows "slot_pre db installed forbidden nm visited (depends pkg) [] (insert nm visited)"
proof -
  have "visited_closed db installed forbidden (insert nm visited) nm"
    using assms(1) unfolding visited_closed_def by auto
  moreover have "\<forall>d \<in> fst ` set (depends pkg). \<not> skipped installed forbidden d \<longrightarrow>
      needs db installed forbidden nm d"
    using assms(3) by (simp add: needs_def)
  ultimately show ?thesis using assms(2) unfolding slot_pre_def ordered_ok_def by auto
qed

lemma slot_pre_call:
  assumes "slot_pre db installed forbidden owner base ((d, c) # rest) acc seen"
    "\<not> skipped installed forbidden d"
  shows "visited_closed db installed forbidden seen d"
proof -
  from assms have nd: "needs db installed forbidden owner d" unfolding slot_pre_def by simp
  from assms(1) have vc: "visited_closed db installed forbidden seen owner"
    unfolding slot_pre_def by simp
  show ?thesis unfolding visited_closed_def
  proof (intro ballI allI impI)
    fix p e assume "p \<in> seen" "needs db installed forbidden p e"
    with vc have "e \<in> seen \<or> (needs db installed forbidden)\<^sup>*\<^sup>* p owner"
      unfolding visited_closed_def by blast
    then show "e \<in> seen \<or> (needs db installed forbidden)\<^sup>*\<^sup>* p d"
    proof
      assume "e \<in> seen" then show ?thesis ..
    next
      assume "(needs db installed forbidden)\<^sup>*\<^sup>* p owner"
      then have "(needs db installed forbidden)\<^sup>*\<^sup>* p d" using nd by (rule rtranclp.rtrancl_into_rtrancl)
      then show ?thesis ..
    qed
  qed
qed

lemma acyclic_needs_step:
  assumes "acyclic_needs db installed forbidden p" "needs db installed forbidden p d"
  shows "acyclic_needs db installed forbidden d"
  unfolding acyclic_needs_def
proof (intro allI impI)
  fix x assume "(needs db installed forbidden)\<^sup>*\<^sup>* d x"
  with assms(2) have "(needs db installed forbidden)\<^sup>*\<^sup>* p x"
    by (rule converse_rtranclp_into_rtranclp)
  with assms(1) show "\<not> (needs db installed forbidden)\<^sup>+\<^sup>+ x x"
    unfolding acyclic_needs_def by blast
qed

lemma slot_pre_step:
  assumes acyc: "acyclic_needs db installed forbidden owner"
    and pre: "slot_pre db installed forbidden owner base ((d, c) # rest) acc seen"
    and ns: "\<not> skipped installed forbidden d"
    and r: "resolve_dependencies db installed forbidden d seen = (sub, seen')"
    and ih: "ordered_ok db installed forbidden seen sub"
  shows "slot_pre db installed forbidden owner base rest
           (append_new (append_new acc sub) [d]) seen'"
proof -
  let ?N = "needs db installed forbidden"
  define xs where "xs = acc @ filter (\<lambda>x. x \<notin> set acc) sub"
  define tl where "tl = (if d \<in> set acc \<union> set sub then [] else [d])"
  define acc' where "acc' = append_new (append_new acc sub) [d]"
  from pre have p1: "owner \<in> seen" and p2: "base \<subseteq> seen" and p3: "owner \<notin> base"
    and p4: "\<forall>d \<in> fst ` set rest. \<not> skipped installed forbidden d \<longrightarrow> ?N owner d"
    and nd: "?N owner d"
    and p5: "seen - insert owner base \<subseteq> set acc"
    and p6: "ordered_ok db installed forbidden base acc"
    and p7: "\<forall>x \<in> set acc. ?N\<^sup>+\<^sup>+ owner x"
    and p8: "visited_closed db installed forbidden seen owner"
    and p9: "distinct acc"
    using ns unfolding slot_pre_def by simp_all
  have fr: "seen \<subseteq> seen'" "d \<in> seen'" "set sub \<subseteq> seen'" "seen' - seen \<subseteq> insert d (set sub)"
    using resolve_frame_call[of seen db installed forbidden d] unfolding r by simp_all
  have ds: "distinct sub"
    using resolve_distinct(1)[of db installed forbidden d seen] unfolding r by simp
  have snd_sub: "\<forall>x \<in> set sub. ?N\<^sup>+\<^sup>+ d x"
    using resolve_sound(1)[of db installed forbidden d seen] unfolding r by simp
  have cl: "\<forall>p \<in> seen' - seen. \<forall>e. ?N p e \<longrightarrow> e \<in> set sub"
    using resolve_closed(1)[of db installed forbidden seen d] unfolding r closed_ok_def by simp
  have form: "acc' = xs @ tl"
    unfolding acc'_def xs_def tl_def using ds by (rule append_new2_form)
  have set_xs: "set xs = set acc \<union> set sub" unfolding xs_def by auto
  have set_acc': "set acc' = insert d (set acc \<union> set sub)"
    unfolding acc'_def by (rule set_append_new2)
  have no_cycle_owner: "\<not> ?N\<^sup>+\<^sup>+ owner owner"
    using acyc unfolding acyclic_needs_def by blast
  have no_cycle_d: "\<not> ?N\<^sup>+\<^sup>+ d d"
    using acyclic_needs_step[OF acyc nd] unfolding acyclic_needs_def by blast
  have c5: "seen' - insert owner base \<subseteq> set acc'"
    using fr(4) p5 unfolding set_acc' by blast
  have c7: "\<forall>x \<in> set acc'. ?N\<^sup>+\<^sup>+ owner x"
  proof
    fix x assume "x \<in> set acc'"
    then consider "x \<in> set acc" | "x = d" | "x \<in> set sub" unfolding set_acc' by blast
    then show "?N\<^sup>+\<^sup>+ owner x"
    proof cases
      case 1 with p7 show ?thesis by blast
    next
      case 2 with nd show ?thesis by (simp add: tranclp.r_into_trancl)
    next
      case 3
      with snd_sub have "?N\<^sup>+\<^sup>+ d x" by blast
      with nd show ?thesis by (rule tranclp_into_tranclp2)
    qed
  qed
  have c8: "visited_closed db installed forbidden seen' owner"
    unfolding visited_closed_def
  proof (intro ballI allI impI)
    fix p e assume pe: "p \<in> seen'" "?N p e"
    show "e \<in> seen' \<or> ?N\<^sup>*\<^sup>* p owner"
    proof (cases "p \<in> seen")
      case True
      with p8 pe(2) have "e \<in> seen \<or> ?N\<^sup>*\<^sup>* p owner" unfolding visited_closed_def by blast
      with fr(1) show ?thesis by auto
    next
      case False
      with pe cl have "e \<in> set sub" by blast
      with fr(3) show ?thesis by blast
    qed
  qed
  have c9: "distinct acc'" unfolding acc'_def using p9 by (intro distinct_append_new)
  have c6: "ordered_ok db installed forbidden base acc'"
    unfolding ordered_ok_def
  proof (intro ballI allI impI)
    fix n e assume n: "n \<in> set acc'" and ne: "?N n e"
    show "e \<in> base \<or> precedes e n acc'"
    proof (cases "n \<in> set acc")
      case True
      with p6 ne have "e \<in> base \<or> precedes e n acc" unfolding ordered_ok_def by blast
      moreover have "prefix acc acc'" unfolding form xs_def by simp
      ultimately show ?thesis using precedes_prefix by blast
    next
      case nacc: False
      show ?thesis
      proof (cases "n \<in> set sub")
        case nsub: True
        then have n_in: "n \<in> set (filter (\<lambda>x. x \<notin> set acc) sub @ tl)" using nacc by simp
        from ih nsub ne have "e \<in> seen \<or> precedes e n sub" unfolding ordered_ok_def by blast
        then show ?thesis
        proof
          assume es: "e \<in> seen"
          have "e \<noteq> owner"
          proof
            assume "e = owner"
            with ne have "?N n owner" by simp
            moreover from snd_sub nsub have "?N\<^sup>+\<^sup>+ d n" by blast
            with nd have "?N\<^sup>+\<^sup>+ owner n" by (rule tranclp_into_tranclp2)
            ultimately have "?N\<^sup>+\<^sup>+ owner owner" by (rule tranclp.trancl_into_trancl[rotated])
            with no_cycle_owner show False by blast
          qed
          with es p5 have "e \<in> base \<or> e \<in> set acc" by blast
          then show ?thesis
          proof
            assume "e \<in> base" then show ?thesis ..
          next
            assume "e \<in> set acc"
            with nacc n_in have "precedes e n (acc @ (filter (\<lambda>x. x \<notin> set acc) sub @ tl))"
              by (intro precedes_append_mixed)
            then show ?thesis unfolding form xs_def by simp
          qed
        next
          assume pr: "precedes e n sub"
          show ?thesis
          proof (cases "e \<in> set acc")
            case True
            with nacc n_in have "precedes e n (acc @ (filter (\<lambda>x. x \<notin> set acc) sub @ tl))"
              by (intro precedes_append_mixed)
            then show ?thesis unfolding form xs_def by simp
          next
            case False
            with pr nacc have "precedes e n (filter (\<lambda>x. x \<notin> set acc) sub)"
              by (intro precedes_filter)
            then have "precedes e n (filter (\<lambda>x. x \<notin> set acc) sub @ tl)"
              by (rule precedes_append_left)
            with nacc have "precedes e n (acc @ (filter (\<lambda>x. x \<notin> set acc) sub @ tl))"
              by (rule precedes_append_right)
            then show ?thesis unfolding form xs_def by simp
          qed
        qed
      next
        case nsub: False
        with nacc n have nd_eq: "n = d" unfolding set_acc' by blast
        with nacc nsub have tl_eq: "tl = [d]" unfolding tl_def by simp
        have d_notin: "d \<notin> set xs" using nacc nsub nd_eq unfolding set_xs by simp
        have in_xs: "precedes e n acc'" if "e \<in> set xs"
        proof -
          from d_notin that have "precedes e d (xs @ [d])" by (intro precedes_append_mixed) simp_all
          then show ?thesis unfolding form tl_eq nd_eq .
        qed
        from ne nd_eq have de: "?N d e" by simp
        show ?thesis
        proof (cases "d \<in> seen")
          case False
          with fr(2) cl de have "e \<in> set sub" by blast
          then have "e \<in> set xs" unfolding set_xs by simp
          then show ?thesis using in_xs by blast
        next
          case True
          have "d \<noteq> owner"
          proof
            assume "d = owner"
            with nd have "?N\<^sup>+\<^sup>+ owner owner" by (simp add: tranclp.r_into_trancl)
            with no_cycle_owner show False by blast
          qed
          with True p5 nacc nd_eq have "d \<in> base" by blast
          have not_back: "\<not> ?N\<^sup>*\<^sup>* d owner"
          proof
            assume "?N\<^sup>*\<^sup>* d owner"
            then have "?N\<^sup>+\<^sup>+ d d" using nd by (rule rtranclp_into_tranclp1)
            with no_cycle_d show False by blast
          qed
          with p8 True de have es: "e \<in> seen" unfolding visited_closed_def by blast
          have "e \<noteq> owner"
          proof
            assume "e = owner"
            with de have "?N\<^sup>*\<^sup>* d owner" by (simp add: r_into_rtranclp)
            with not_back show False by blast
          qed
          with es p5 have "e \<in> base \<or> e \<in> set acc" by blast
          then show ?thesis
          proof
            assume "e \<in> base" then show ?thesis ..
          next
            assume "e \<in> set acc"
            then have "e \<in> set xs" unfolding set_xs by simp
            then show ?thesis using in_xs by blast
          qed
        qed
      qed
    qed
  qed
  show ?thesis
    unfolding slot_pre_def acc'_def[symmetric]
    using fr(1) p1 p2 p3 p4 c5 c6 c7 c8 c9 by auto
qed

lemma resolve_ordered:
  "acyclic_needs db installed forbidden nm \<longrightarrow> visited_closed db installed forbidden visited nm \<longrightarrow>
     ordered_ok db installed forbidden visited (fst (resolve_dependencies db installed forbidden nm visited))"
  "\<forall>owner base. acyclic_needs db installed forbidden owner \<longrightarrow>
     slot_pre db installed forbidden owner base slots to_install visited \<longrightarrow>
     ordered_ok db installed forbidden base (fst (resolve_slots db installed forbidden slots to_install visited))"
proof (induct db installed forbidden nm visited and db installed forbidden slots to_install visited
       rule: resolve_dependencies_resolve_slots.induct)
  case (1 db installed forbidden nm visited)
  show ?case
  proof (cases "nm \<in> visited")
    case True
    then show ?thesis by (simp add: resolve_dependencies.simps ordered_ok_def)
  next
    case False
    show ?thesis
    proof (cases "fmlookup db nm")
      case None
      with False show ?thesis by (simp add: resolve_dependencies.simps ordered_ok_def)
    next
      case (Some pkg)
      have eq: "resolve_dependencies db installed forbidden nm visited =
            resolve_slots db installed forbidden (depends pkg) [] (insert nm visited)"
        using False Some by (simp add: resolve_dependencies.simps)
      show ?thesis
      proof (intro impI)
        assume a: "acyclic_needs db installed forbidden nm" "visited_closed db installed forbidden visited nm"
        from a(2) False Some
        have "slot_pre db installed forbidden nm visited (depends pkg) [] (insert nm visited)"
          by (rule slot_pre_entry)
        with 1[OF False Some] a(1) show "ordered_ok db installed forbidden visited
            (fst (resolve_dependencies db installed forbidden nm visited))"
          unfolding eq by blast
      qed
    qed
  qed
next
  case (2 db installed forbidden to_install visited)
  then show ?case by (simp add: resolve_slots.simps slot_pre_done)
next
  case (3 db installed forbidden dep_name constraint rest to_install visited)
  show ?case
  proof (intro allI impI)
    fix owner base
    assume acyc: "acyclic_needs db installed forbidden owner"
      and pre: "slot_pre db installed forbidden owner base ((dep_name, constraint) # rest) to_install visited"
    show "ordered_ok db installed forbidden base
        (fst (resolve_slots db installed forbidden ((dep_name, constraint) # rest) to_install visited))"
    proof (cases "skipped installed forbidden dep_name")
      case True
      have ih: "\<forall>owner base. acyclic_needs db installed forbidden owner \<longrightarrow>
          slot_pre db installed forbidden owner base rest to_install visited \<longrightarrow>
          ordered_ok db installed forbidden base (fst (resolve_slots db installed forbidden rest to_install visited))"
        using True
      proof (cases rule: skipped_cases)
        case forbidden
        then show ?thesis by (rule 3(1))
      next
        case installed
        then show ?thesis by (rule 3(2))
      next
        case transitional
        then show ?thesis by (rule 3(3))
      qed
      from pre have "slot_pre db installed forbidden owner base rest to_install visited"
        by (rule slot_pre_skip)
      with ih acyc show ?thesis by (simp only: resolve_slots_skip[OF True])
    next
      case False
      note f = not_skippedD[OF False]
      obtain sub_deps visited' where r:
        "resolve_dependencies db installed forbidden dep_name visited = (sub_deps, visited')"
        by (cases "resolve_dependencies db installed forbidden dep_name visited")
      from pre False have "visited_closed db installed forbidden visited dep_name"
        by (rule slot_pre_call)
      moreover from pre False have "needs db installed forbidden owner dep_name"
        unfolding slot_pre_def by simp
      with acyc have "acyclic_needs db installed forbidden dep_name"
        by (rule acyclic_needs_step)
      ultimately have ih1: "ordered_ok db installed forbidden visited sub_deps"
        using 3(4)[OF f] unfolding r by simp
      from acyc pre False r ih1
      have "slot_pre db installed forbidden owner base rest
          (append_new (append_new to_install sub_deps) [dep_name]) visited'"
        by (rule slot_pre_step)
      with 3(5)[OF f r[symmetric]] acyc show ?thesis
        by (simp only: resolve_slots_step[OF False r])
    qed
  qed
qed

text \<open>
  C7, amended. The returned list never has duplicates. When no name that the root reaches
  through unskipped dependency slots lies on a cycle of such slots, every dependency of a
  listed name that is not skipped (not forbidden, not installed, not satisfied by a t64
  name) precedes that name in the list. For the chain A, B, C the result is \<open>[C, B]\<close>.
\<close>

theorem resolve_dependency_first:
  "distinct (resolve db installed forbidden root)
   \<and> (acyclic_needs db installed forbidden root \<longrightarrow>
        (\<forall>n \<in> set (resolve db installed forbidden root).
           \<forall>e. needs db installed forbidden n e \<longrightarrow>
             precedes e n (resolve db installed forbidden root)))
   \<and> resolve chain_catalog {} FORBIDDEN_PACKAGES ''A'' = [''C'', ''B'']"
proof (intro conjI impI)
  show "distinct (resolve db installed forbidden root)"
    unfolding resolve_def by (rule resolve_distinct(1))
  show "resolve chain_catalog {} FORBIDDEN_PACKAGES ''A'' = [''C'', ''B'']"
    by (simp add: resolve_eval chain_catalog_def)
  assume acyc: "acyclic_needs db installed forbidden root"
  have "visited_closed db installed forbidden {} root" unfolding visited_closed_def by simp
  with acyc have "ordered_ok db installed forbidden {} (resolve db installed forbidden root)"
    using resolve_ordered(1)[of db installed forbidden root "{}"] unfolding resolve_def by blast
  then show "\<forall>n \<in> set (resolve db installed forbidden root).
         \<forall>e. needs db installed forbidden n e \<longrightarrow> precedes e n (resolve db installed forbidden root)"
    unfolding ordered_ok_def by simp
qed

text \<open>
  The theorem at a catalog that holds a cycle the root does not reach: the chain A, B, C
  beside P and Q depending on each other.
\<close>

lemma side_cycle_needs:
  "needs side_cycle_catalog {} FORBIDDEN_PACKAGES p d \<longleftrightarrow>
     p = ''A'' \<and> d = ''B'' \<or> p = ''B'' \<and> d = ''C'' \<or> p = ''P'' \<and> d = ''Q'' \<or> p = ''Q'' \<and> d = ''P''"
  by (auto simp: needs_def skipped_def side_cycle_catalog_def example_pkg_def FORBIDDEN_PACKAGES_def)

lemma side_cycle_reach:
  assumes "(needs side_cycle_catalog {} FORBIDDEN_PACKAGES)\<^sup>*\<^sup>* ''A'' x"
  shows "x = ''A'' \<or> x = ''B'' \<or> x = ''C''"
  using assms by (induct rule: rtranclp_induct) (auto simp: side_cycle_needs)

lemma side_cycle_descends:
  assumes "(needs side_cycle_catalog {} FORBIDDEN_PACKAGES)\<^sup>+\<^sup>+ x y"
    and "x = ''A'' \<or> x = ''B'' \<or> x = ''C''"
  shows "(y = ''B'' \<or> y = ''C'') \<and> chain_rank y < chain_rank x"
  using assms
proof (induct rule: tranclp_induct)
  case (base y)
  then show ?case by (auto simp: side_cycle_needs chain_rank_def)
next
  case (step y z)
  from step(3)[OF step(4)] have y: "y = ''B'' \<or> y = ''C''" "chain_rank y < chain_rank x" by simp_all
  from step(2) y(1) have z: "z = ''C''" "chain_rank z < chain_rank y"
    by (auto simp: side_cycle_needs chain_rank_def)
  from z(2) y(2) have "chain_rank z < chain_rank x" by (rule less_trans)
  with z(1) show ?case by blast
qed

lemma side_cycle_acyclic: "acyclic_needs side_cycle_catalog {} FORBIDDEN_PACKAGES ''A''"
  unfolding acyclic_needs_def
proof (intro allI impI notI)
  fix x
  assume "(needs side_cycle_catalog {} FORBIDDEN_PACKAGES)\<^sup>*\<^sup>* ''A'' x"
  then have "x = ''A'' \<or> x = ''B'' \<or> x = ''C''" by (rule side_cycle_reach)
  moreover assume "(needs side_cycle_catalog {} FORBIDDEN_PACKAGES)\<^sup>+\<^sup>+ x x"
  ultimately have "chain_rank x < chain_rank x" using side_cycle_descends by blast
  then show False by simp
qed

theorem resolve_dependency_first_witness:
  "acyclic_needs side_cycle_catalog {} FORBIDDEN_PACKAGES ''A''
   \<and> (needs side_cycle_catalog {} FORBIDDEN_PACKAGES)\<^sup>+\<^sup>+ ''P'' ''P''
   \<and> resolve side_cycle_catalog {} FORBIDDEN_PACKAGES ''A'' = [''C'', ''B'']
   \<and> distinct (resolve side_cycle_catalog {} FORBIDDEN_PACKAGES ''A'')
   \<and> needs side_cycle_catalog {} FORBIDDEN_PACKAGES ''B'' ''C''
   \<and> precedes ''C'' ''B'' (resolve side_cycle_catalog {} FORBIDDEN_PACKAGES ''A'')"
proof -
  have ev: "resolve side_cycle_catalog {} FORBIDDEN_PACKAGES ''A'' = [''C'', ''B'']"
    by (simp add: resolve_eval side_cycle_catalog_def)
  have nd: "needs side_cycle_catalog {} FORBIDDEN_PACKAGES ''B'' ''C''" by (simp add: side_cycle_needs)
  have "needs side_cycle_catalog {} FORBIDDEN_PACKAGES ''P'' ''Q''"
    "needs side_cycle_catalog {} FORBIDDEN_PACKAGES ''Q'' ''P''" by (simp_all add: side_cycle_needs)
  then have cyc: "(needs side_cycle_catalog {} FORBIDDEN_PACKAGES)\<^sup>+\<^sup>+ ''P'' ''P''"
    by (rule tranclp.intros(2)[OF tranclp.intros(1)])
  from resolve_dependency_first[of side_cycle_catalog "{}" FORBIDDEN_PACKAGES "''A''"]
    ev nd cyc side_cycle_acyclic
  show ?thesis by simp
qed

text \<open>
  C7 as stated fails where the root reaches a cycle: for A depending on B, B on C and C
  on B the result is \<open>[B, C]\<close>. Both names are dependencies to install, and C, a dependency
  of the listed name B, does not precede B.
\<close>

theorem resolve_dependency_first_counterexample:
  "resolve inner_cycle_catalog {} FORBIDDEN_PACKAGES ''A'' = [''B'', ''C'']
   \<and> needs inner_cycle_catalog {} FORBIDDEN_PACKAGES ''B'' ''C''
   \<and> \<not> precedes ''C'' ''B'' (resolve inner_cycle_catalog {} FORBIDDEN_PACKAGES ''A'')"
  by (simp add: resolve_eval inner_cycle_catalog_def needs_def skipped_def precedes_def)

section \<open>Properties of the parser\<close>

lemmas parse_eval = parse_packages_def parse_entry_def parse_line_def split_once_def
  split_def strip_def isspace_def parse_depends_def match_dep_def get_default_def
  stanza_keys_def line_keys_def example_stanza_def example_text_def

lemmas depends_eval = parse_depends_def split_def slot_pairs_def match_dep_def strip_def
  isspace_def first_token_def

subsection \<open>Lines and stanzas\<close>

lemma parse_line_skip:
  "CHR '':'' \<notin> set line \<Longrightarrow> parse_line pkg_data line = Inr pkg_data"
  by (simp add: parse_line_def)

lemma parse_line_key:
  "CHR '':'' \<in> set line \<Longrightarrow>
   parse_line pkg_data line =
     Inr (pkg_data(strip (takeWhile (\<lambda>x. x \<noteq> CHR '':'') line) \<mapsto>
                     strip (tl (dropWhile (\<lambda>x. x \<noteq> CHR '':'') line))))"
  by (auto simp: parse_line_def split_once_def)

lemma parse_line_total: "\<exists>m. parse_line pkg_data line = Inr m"
  by (cases "CHR '':'' \<in> set line") (simp_all add: parse_line_skip parse_line_key)

lemma parse_lines_total: "\<exists>m. parse_lines pkg_data lines = Inr m"
proof (induction lines arbitrary: pkg_data)
  case Nil
  then show ?case by simp
next
  case (Cons line lines)
  obtain m where "parse_line pkg_data line = Inr m" using parse_line_total by blast
  with Cons show ?case by simp
qed

lemma parse_lines_dom:
  "parse_lines pkg_data lines = Inr m \<Longrightarrow> dom m = dom pkg_data \<union> line_keys lines"
proof (induction lines arbitrary: pkg_data)
  case Nil
  then show ?case by (simp add: line_keys_def)
next
  case (Cons line lines)
  show ?case
  proof (cases "CHR '':'' \<in> set line")
    case True
    with Cons.prems have "parse_lines (pkg_data(strip (takeWhile (\<lambda>x. x \<noteq> CHR '':'') line) \<mapsto>
                     strip (tl (dropWhile (\<lambda>x. x \<noteq> CHR '':'') line)))) lines = Inr m"
      by (simp add: parse_line_key)
    from Cons.IH[OF this] True show ?thesis by (auto simp: line_keys_def)
  next
    case False
    with Cons.prems have "parse_lines pkg_data lines = Inr m" by (simp add: parse_line_skip)
    from Cons.IH[OF this] False show ?thesis by (auto simp: line_keys_def)
  qed
qed

lemma parse_entry_total: "\<exists>r. parse_entry entry = Inr r"
proof -
  obtain m where "parse_lines Map.empty (split entry [CHR 0x0A]) = Inr m"
    using parse_lines_total by blast
  then show ?thesis by (simp add: parse_entry_def split: option.splits)
qed

lemma parse_entries_total: "\<exists>cat. parse_entries packages entries = Inr cat"
proof (induction entries arbitrary: packages)
  case Nil
  then show ?case by simp
next
  case (Cons entry entries)
  obtain r where "parse_entry entry = Inr r" using parse_entry_total by blast
  with Cons show ?case by (cases r) simp_all
qed

lemma in_dropWhile: "x \<in> set xs \<Longrightarrow> \<not> P x \<Longrightarrow> x \<in> set (dropWhile P xs)"
  by (induction xs) auto

lemma strip_nonempty:
  assumes "c \<in> set s" "\<not> isspace c"
  shows "strip s \<noteq> []"
proof -
  from assms have "c \<in> set (rev (dropWhile isspace s))" by (simp add: in_dropWhile)
  then have "c \<in> set (dropWhile isspace (rev (dropWhile isspace s)))"
    using assms(2) by (rule in_dropWhile)
  then have "dropWhile isspace (rev (dropWhile isspace s)) \<noteq> []" by force
  then show ?thesis unfolding strip_def rev_is_Nil_conv .
qed

lemma set_split_sep:
  "p \<in> set (split_sep sep cur s) \<Longrightarrow> set p \<subseteq> set cur \<union> set s"
proof (induction sep cur s arbitrary: p rule: split_sep.induct)
  case (1 sep cur)
  then show ?case by simp
next
  case (2 sep cur c cs)
  show ?case
  proof (cases "sep \<noteq> [] \<and> prefix sep (c # cs)")
    case True
    with 2(3) have "p = cur \<or> p \<in> set (split_sep sep [] (drop (length sep) (c # cs)))" by simp
    then show ?thesis
    proof
      assume "p = cur" then show ?thesis by auto
    next
      assume "p \<in> set (split_sep sep [] (drop (length sep) (c # cs)))"
      from 2(1)[OF True this] have "set p \<subseteq> set (drop (length sep) (c # cs))" by simp
      also have "\<dots> \<subseteq> set (c # cs)" by (rule set_drop_subset)
      finally show ?thesis by auto
    qed
  next
    case False
    with 2(3) have "p \<in> set (split_sep sep (cur @ [c]) cs)" by auto
    from 2(2)[OF False this] show ?thesis by auto
  qed
qed

lemma stanza_keys_nonblank:
  assumes "k \<in> stanza_keys entry"
  shows "strip entry \<noteq> []"
proof -
  from assms obtain line where "line \<in> set (split entry [CHR 0x0A])" "CHR '':'' \<in> set line"
    unfolding stanza_keys_def line_keys_def by auto
  then have "CHR '':'' \<in> set entry" using set_split_sep[of line "[CHR 0x0A]" "[]" entry]
    unfolding split_def by auto
  moreover have "\<not> isspace (CHR '':'')" by (simp add: isspace_def)
  ultimately show ?thesis by (rule strip_nonempty)
qed

text \<open>
  The keys that the loop over the lines collects are the keys of the stanza.
\<close>

lemma parse_entry_data:
  "\<exists>pkg_data. parse_lines Map.empty (split entry [CHR 0x0A]) = Inr pkg_data
      \<and> dom pkg_data = stanza_keys entry"
proof -
  obtain m where m: "parse_lines Map.empty (split entry [CHR 0x0A]) = Inr m"
    using parse_lines_total by blast
  from parse_lines_dom[OF m] have "dom m = stanza_keys entry" by (simp add: stanza_keys_def)
  with m show ?thesis by blast
qed

lemma parse_entry_no_package:
  assumes "''Package'' \<notin> stanza_keys entry"
  shows "parse_entry entry = Inr None"
proof -
  obtain m where m: "parse_lines Map.empty (split entry [CHR 0x0A]) = Inr m"
    "dom m = stanza_keys entry" using parse_entry_data by blast
  with assms have "m ''Package'' = None" by blast
  with m(1) show ?thesis by (simp add: parse_entry_def)
qed

lemma parse_entry_package:
  assumes "''Package'' \<in> stanza_keys entry"
  shows "\<exists>pkg. parse_entry entry = Inr (Some pkg)
     \<and> (''Depends'' \<notin> stanza_keys entry \<longrightarrow> depends pkg = [])
     \<and> (''Version'' \<notin> stanza_keys entry \<longrightarrow> version pkg = [])
     \<and> (''Filename'' \<notin> stanza_keys entry \<longrightarrow> filename pkg = [])
     \<and> (''Architecture'' \<notin> stanza_keys entry \<longrightarrow> architecture pkg = ''amd64'')"
proof -
  obtain m where m: "parse_lines Map.empty (split entry [CHR 0x0A]) = Inr m"
    "dom m = stanza_keys entry" using parse_entry_data by blast
  from assms m(2) obtain nm where nm: "m ''Package'' = Some nm" by blast
  have nb: "strip entry \<noteq> []" using assms by (rule stanza_keys_nonblank)
  have none: "m k = None" if "k \<notin> stanza_keys entry" for k using that m(2) by blast
  show ?thesis using m(1) nm nb
    by (auto simp: parse_entry_def get_default_def none)
qed

text \<open>
  Every record of the catalog is the record of one of the stanzas.
\<close>

lemma parse_entries_lookup:
  "parse_entries packages entries = Inr cat \<Longrightarrow> fmlookup cat n = Some pkg \<Longrightarrow>
   fmlookup packages n = Some pkg
   \<or> (\<exists>entry \<in> set entries. parse_entry entry = Inr (Some pkg) \<and> name pkg = n)"
proof (induction entries arbitrary: packages)
  case Nil
  then show ?case by simp
next
  case (Cons entry entries)
  obtain r where r: "parse_entry entry = Inr r" using parse_entry_total by blast
  show ?case
  proof (cases r)
    case None
    with r Cons.prems have "parse_entries packages entries = Inr cat" by simp
    from Cons.IH[OF this Cons.prems(2)] show ?thesis by auto
  next
    case (Some p)
    with r Cons.prems have "parse_entries (fmupd (name p) p packages) entries = Inr cat" by simp
    from Cons.IH[OF this Cons.prems(2)] r Some show ?thesis by (auto split: if_splits)
  qed
qed

lemma example_stanza_keys: "stanza_keys example_stanza = {''Package'', ''Priority''}"
  by (simp add: parse_eval insert_commute)

lemma example_stanza_entry:
  "parse_entry example_stanza =
     Inr (Some \<lparr>name = ''foo'', version = [], architecture = ''amd64'', filename = [],
                depends = []\<rparr>)"
  by (simp add: parse_eval)

lemma example_text_catalog:
  "parse_packages example_text =
     Inr (fmupd ''foo'' \<lparr>name = ''foo'', version = [], architecture = ''amd64'', filename = [],
                          depends = []\<rparr> fmempty)"
  by (simp add: parse_eval)

lemma defaults_stanza_keys: "stanza_keys defaults_stanza = {''Package'', ''Depends''}"
  by (simp add: parse_eval defaults_stanza_def insert_commute)

lemma defaults_stanza_entry:
  "parse_entry defaults_stanza =
     Inr (Some \<lparr>name = ''bar'', version = [], architecture = ''amd64'', filename = [],
                depends = [(''foo'', ''>= 1.0''), (''baz'', [])]\<rparr>)"
  by (simp add: parse_eval defaults_stanza_def)

subsection \<open>Totality\<close>

text \<open>
  C8. For every text the parser returns a catalog (the error of the tuple assignment
  cannot occur). A line without a colon leaves the data collected for its stanza unchanged
  and the remaining lines are processed as without it. A stanza without a Package key
  leaves the catalog unchanged. A stanza with a Package key and without a Depends key
  gives a record with the empty dependency list, which is stored under its name.
\<close>

theorem parse_packages_total:
  "(\<exists>cat. parse_packages content = Inr cat)
   \<and> (CHR '':'' \<notin> set line \<longrightarrow>
        parse_lines pkg_data (line # lines) = parse_lines pkg_data lines)
   \<and> (''Package'' \<notin> stanza_keys entry \<longrightarrow>
        parse_entries packages (entry # entries) = parse_entries packages entries)
   \<and> (''Package'' \<in> stanza_keys entry \<and> ''Depends'' \<notin> stanza_keys entry \<longrightarrow>
        (\<exists>pkg. parse_entry entry = Inr (Some pkg) \<and> depends pkg = []
           \<and> parse_entries packages (entry # entries)
               = parse_entries (fmupd (name pkg) pkg packages) entries))"
proof (intro conjI impI)
  show "\<exists>cat. parse_packages content = Inr cat"
    unfolding parse_packages_def by (rule parse_entries_total)
  show "parse_lines pkg_data (line # lines) = parse_lines pkg_data lines"
    if "CHR '':'' \<notin> set line" using that by (simp add: parse_line_skip)
  show "parse_entries packages (entry # entries) = parse_entries packages entries"
    if "''Package'' \<notin> stanza_keys entry" using that by (simp add: parse_entry_no_package)
  show "\<exists>pkg. parse_entry entry = Inr (Some pkg) \<and> depends pkg = []
           \<and> parse_entries packages (entry # entries)
               = parse_entries (fmupd (name pkg) pkg packages) entries"
    if "''Package'' \<in> stanza_keys entry \<and> ''Depends'' \<notin> stanza_keys entry"
  proof -
    from that parse_entry_package[of entry] obtain pkg where
      "parse_entry entry = Inr (Some pkg)" "depends pkg = []" by blast
    then show ?thesis by simp
  qed
qed

theorem parse_packages_total_witness:
  "CHR '':'' \<notin> set ''a line without separator''
   \<and> parse_lines Map.empty [''a line without separator'', ''Priority: optional'']
       = parse_lines Map.empty [''Priority: optional'']
   \<and> ''Package'' \<notin> stanza_keys (''Version: 2.0'' @ [CHR 0x0A] @ ''Depends: foo'')
   \<and> parse_entries fmempty [''Version: 2.0'' @ [CHR 0x0A] @ ''Depends: foo'', example_stanza]
       = parse_entries fmempty [example_stanza]
   \<and> ''Package'' \<in> stanza_keys example_stanza \<and> ''Depends'' \<notin> stanza_keys example_stanza
   \<and> parse_entry example_stanza =
       Inr (Some \<lparr>name = ''foo'', version = [], architecture = ''amd64'', filename = [],
                  depends = []\<rparr>)
   \<and> parse_packages example_text =
       Inr (fmupd ''foo'' \<lparr>name = ''foo'', version = [], architecture = ''amd64'',
                            filename = [], depends = []\<rparr> fmempty)"
  using parse_packages_total[where content = example_text
      and line = "''a line without separator''" and pkg_data = Map.empty
      and lines = "[''Priority: optional'']"
      and entry = "''Version: 2.0'' @ [CHR 0x0A] @ ''Depends: foo''"
      and packages = fmempty and entries = "[example_stanza]"]
    parse_packages_total[where entry = example_stanza and packages = fmempty and entries = "[]"]
  by (simp add: example_stanza_keys example_stanza_entry example_text_catalog)
    (simp add: parse_eval)

subsection \<open>Defaults of absent keys\<close>

text \<open>
  C10. A stanza with a Package key parses to a record; its version is the empty string
  when the key Version is absent, its filename is the empty string when the key Filename
  is absent, and its architecture is \<^verbatim>\<open>amd64\<close> when the key Architecture is absent; the
  only other default, that of the dependency list, is empty as well. Every record of the
  catalog parsed from a text is the record of one of its stanzas.
\<close>

theorem parse_entry_defaults:
  "(''Package'' \<in> stanza_keys entry \<longrightarrow>
      (\<exists>pkg. parse_entry entry = Inr (Some pkg)
         \<and> (''Version'' \<notin> stanza_keys entry \<longrightarrow> version pkg = [])
         \<and> (''Filename'' \<notin> stanza_keys entry \<longrightarrow> filename pkg = [])
         \<and> (''Architecture'' \<notin> stanza_keys entry \<longrightarrow> architecture pkg = ''amd64'')
         \<and> (''Depends'' \<notin> stanza_keys entry \<longrightarrow> depends pkg = [])))
   \<and> (parse_packages content = Inr cat \<and> fmlookup cat n = Some p \<longrightarrow>
        (\<exists>stanza \<in> set (split content [CHR 0x0A, CHR 0x0A]).
           parse_entry stanza = Inr (Some p) \<and> name p = n))"
proof (intro conjI impI)
  show "\<exists>pkg. parse_entry entry = Inr (Some pkg)
         \<and> (''Version'' \<notin> stanza_keys entry \<longrightarrow> version pkg = [])
         \<and> (''Filename'' \<notin> stanza_keys entry \<longrightarrow> filename pkg = [])
         \<and> (''Architecture'' \<notin> stanza_keys entry \<longrightarrow> architecture pkg = ''amd64'')
         \<and> (''Depends'' \<notin> stanza_keys entry \<longrightarrow> depends pkg = [])"
    if "''Package'' \<in> stanza_keys entry"
    using parse_entry_package[OF that] by blast
  show "\<exists>stanza \<in> set (split content [CHR 0x0A, CHR 0x0A]).
           parse_entry stanza = Inr (Some p) \<and> name p = n"
    if "parse_packages content = Inr cat \<and> fmlookup cat n = Some p"
    using that parse_entries_lookup[of fmempty "split content [CHR 0x0A, CHR 0x0A]" cat n p]
    unfolding parse_packages_def by simp
qed

theorem parse_entry_defaults_witness:
  "''Package'' \<in> stanza_keys defaults_stanza
   \<and> ''Version'' \<notin> stanza_keys defaults_stanza
   \<and> ''Filename'' \<notin> stanza_keys defaults_stanza
   \<and> ''Architecture'' \<notin> stanza_keys defaults_stanza
   \<and> parse_entry defaults_stanza = Inr (Some defaults_record)
   \<and> version defaults_record = [] \<and> filename defaults_record = []
   \<and> architecture defaults_record = ''amd64''
   \<and> parse_packages defaults_stanza = Inr (fmupd ''bar'' defaults_record fmempty)
   \<and> fmlookup (fmupd ''bar'' defaults_record fmempty) ''bar'' = Some defaults_record
   \<and> split defaults_stanza [CHR 0x0A, CHR 0x0A] = [defaults_stanza]"
  using parse_entry_defaults[where entry = defaults_stanza and content = defaults_stanza
      and cat = "fmupd ''bar'' defaults_record fmempty" and n = "''bar''" and p = defaults_record]
  by (simp add: defaults_stanza_keys defaults_stanza_entry defaults_record_def)
    (simp add: parse_eval defaults_stanza_def)

subsection \<open>Dependency slots\<close>

lemma parse_deps_concat:
  "parse_deps acc slots = acc @ concat (map slot_pairs slots)"
  by (induction slots arbitrary: acc) (auto simp: slot_pairs_def split: option.splits)

lemma parse_depends_concat: "parse_depends v = concat (map slot_pairs (split v '',''))"
  by (simp add: parse_depends_def parse_deps_concat)

lemma match_dep_None: "match_dep s = None \<longleftrightarrow> name_part s = []"
  by (simp add: match_dep_def name_part_def Let_def)

lemma match_dep_name: "match_dep s = Some (n, g) \<Longrightarrow> n = name_part s \<and> n \<noteq> []"
  by (auto simp: match_dep_def name_part_def Let_def split: if_splits)

lemma name_part_Nil: "name_part s = [] \<longleftrightarrow> s = [] \<or> isspace (hd s) \<or> hd s = CHR ''(''"
  by (cases s) (auto simp: name_part_def)

lemma isspace_paren: "\<not> isspace (CHR ''('')"
  by (simp add: isspace_def)

lemma takeWhile_stop_char:
  "b \<notin> set xs \<Longrightarrow> takeWhile (\<lambda>x. x \<noteq> b) (xs @ ys) = xs @ takeWhile (\<lambda>x. x \<noteq> b) ys"
  by (induction xs) auto

lemma group_forward:
  assumes "has_group s n c" "n = name_part s"
  shows "match_dep s = Some (n, Some c) \<or> n = []"
proof -
  from assms(1) obtain ws rest where s: "s = n @ ws @ [CHR ''(''] @ c @ [CHR '')''] @ rest"
    and ws: "\<forall>w \<in> set ws. isspace w" and c: "c \<noteq> []" "CHR '')'' \<notin> set c"
    unfolding has_group_def by blast
  have len: "drop (length (name_part s)) s = ws @ CHR ''('' # c @ CHR '')'' # rest"
    using s assms(2) by (metis append_eq_conv_conj append_Cons append_Nil)
  have dw: "dropWhile isspace (ws @ CHR ''('' # c @ CHR '')'' # rest) = CHR ''('' # c @ CHR '')'' # rest"
    using ws isspace_paren by (simp add: dropWhile_append2)
  have tw: "takeWhile (\<lambda>x. x \<noteq> CHR '')'') (c @ CHR '')'' # rest) = c"
    using c(2) by (simp add: takeWhile_stop_char)
  have dr: "drop (length c) (c @ CHR '')'' # rest) \<noteq> []" by simp
  show ?thesis
  proof (cases "n = []")
    case True
    then show ?thesis by simp
  next
    case False
    with assms(2) have "name_part s \<noteq> []" by simp
    then have "match_dep s = Some (name_part s, Some c)"
      using c(1) unfolding match_dep_def name_part_def[symmetric] Let_def len dw
      by (simp only: list.case tw dr if_True if_False simp_thms)
    with assms(2) show ?thesis by simp
  qed
qed

lemma group_backward:
  assumes "match_dep s = Some (n, Some c)"
  shows "has_group s n c"
proof -
  from assms have n: "n = name_part s" by (simp add: match_dep_name)
  define r where "r = drop (length n) s"
  define after where "after = dropWhile isspace r"
  have s_split: "s = n @ r" unfolding r_def n name_part_def
    by (metis append_take_drop_id takeWhile_eq_take)
  have r_split: "r = takeWhile isspace r @ after" unfolding after_def by simp
  from assms obtain body where after_eq: "after = CHR ''('' # body"
    and inner: "c = takeWhile (\<lambda>x. x \<noteq> CHR '')'') body" "c \<noteq> []"
      "drop (length c) body \<noteq> []"
    unfolding match_dep_def Let_def name_part_def[symmetric] n[symmetric] r_def[symmetric] after_def[symmetric]
    by (auto split: if_splits list.splits)
  have dd: "drop (length c) body = dropWhile (\<lambda>x. x \<noteq> CHR '')'') body"
    unfolding inner(1) by (simp add: dropWhile_eq_drop)
  with inner(3) have "hd (dropWhile (\<lambda>x. x \<noteq> CHR '')'') body) = CHR '')''"
    using hd_dropWhile[of "\<lambda>x. x \<noteq> CHR '')''" body] by simp
  with inner(3) dd obtain rest where rest: "dropWhile (\<lambda>x. x \<noteq> CHR '')'') body = CHR '')'' # rest"
    by (cases "dropWhile (\<lambda>x. x \<noteq> CHR '')'') body") auto
  have body_split: "body = c @ CHR '')'' # rest"
    unfolding inner(1) rest[symmetric] by simp
  have "CHR '')'' \<notin> set c" unfolding inner(1) by (auto dest: set_takeWhileD)
  moreover have "\<forall>w \<in> set (takeWhile isspace r). isspace w" by (auto dest: set_takeWhileD)
  moreover have "s = n @ takeWhile isspace r @ [CHR ''(''] @ c @ [CHR '')''] @ rest"
    using s_split r_split after_eq body_split by simp
  ultimately show ?thesis unfolding has_group_def using inner(2) by blast
qed

lemma takeWhile_append_none:
  "(\<forall>w \<in> set ws. \<not> P w) \<Longrightarrow> takeWhile P (xs @ ws) = takeWhile P xs"
proof -
  assume "\<forall>w \<in> set ws. \<not> P w"
  then have "takeWhile P ws = []" by (cases ws) auto
  then show ?thesis by (induction xs) auto
qed

lemma rstrip_decomp:
  "\<exists>ws. t = rev (dropWhile isspace (rev t)) @ ws \<and> (\<forall>w \<in> set ws. isspace w)"
proof -
  have "rev t = takeWhile isspace (rev t) @ dropWhile isspace (rev t)" by simp
  then have "t = rev (dropWhile isspace (rev t)) @ rev (takeWhile isspace (rev t))"
    by (metis rev_append rev_rev_ident)
  moreover have "\<forall>w \<in> set (rev (takeWhile isspace (rev t))). isspace w"
    by (auto dest: set_takeWhileD)
  ultimately show ?thesis by blast
qed

lemma strip_head: "strip s = [] \<or> \<not> isspace (hd (strip s))"
proof (cases "strip s = []")
  case True
  then show ?thesis by simp
next
  case False
  define t where "t = dropWhile isspace s"
  obtain ws where ws: "t = strip s @ ws" unfolding t_def strip_def using rstrip_decomp by blast
  with False have "hd (strip s) = hd t" by simp
  moreover have "t \<noteq> []" using ws False by simp
  then have "\<not> isspace (hd t)" unfolding t_def by (rule hd_dropWhile)
  ultimately show ?thesis by simp
qed

lemma first_token_strip: "takeWhile (\<lambda>c. \<not> isspace c) (strip s) = first_token s"
proof -
  define t where "t = dropWhile isspace s"
  obtain ws where ws: "t = strip s @ ws" "\<forall>w \<in> set ws. isspace w"
    unfolding t_def strip_def using rstrip_decomp by blast
  have "takeWhile (\<lambda>c. \<not> isspace c) (strip s @ ws) = takeWhile (\<lambda>c. \<not> isspace c) (strip s)"
    using ws(2) by (intro takeWhile_append_none) simp
  then show ?thesis unfolding first_token_def t_def[symmetric] ws(1) by simp
qed

lemma name_part_token:
  "CHR ''('' \<notin> set (takeWhile (\<lambda>c. \<not> isspace c) s) \<Longrightarrow>
   name_part s = takeWhile (\<lambda>c. \<not> isspace c) s"
  unfolding name_part_def by (induction s) (auto split: if_splits)

lemma name_part_first_token:
  "CHR ''('' \<notin> set (first_token slot) \<Longrightarrow> name_part (strip slot) = first_token slot"
  using name_part_token[of "strip slot"] by (simp add: first_token_strip)

lemma slot_pairs_length: "length (slot_pairs slot) \<le> 1"
  by (simp add: slot_pairs_def split: option.splits)

lemma slot_pairs_Nil:
  "slot_pairs slot = [] \<longleftrightarrow> strip slot = [] \<or> hd (strip slot) = CHR ''(''"
proof -
  have "slot_pairs slot = [] \<longleftrightarrow> match_dep (strip slot) = None"
    by (simp add: slot_pairs_def split: option.splits)
  also have "\<dots> \<longleftrightarrow> strip slot = [] \<or> isspace (hd (strip slot)) \<or> hd (strip slot) = CHR ''(''"
    by (simp add: match_dep_None name_part_Nil)
  also have "\<dots> \<longleftrightarrow> strip slot = [] \<or> hd (strip slot) = CHR ''(''"
    using strip_head[of slot] by blast
  finally show ?thesis .
qed

lemma slot_pairs_pair:
  assumes "(n, c) \<in> set (slot_pairs slot)"
  shows "slot_pairs slot = [(n, c)]" "n = name_part (strip slot)" "n \<noteq> []"
    "c \<noteq> [] \<Longrightarrow> has_group (strip slot) n c"
    "c = [] \<Longrightarrow> \<not> has_group (strip slot) n c'"
proof -
  obtain n' g where m': "match_dep (strip slot) = Some (n', g)"
  proof (cases "match_dep (strip slot)")
    case None
    with assms show ?thesis by (simp add: slot_pairs_def)
  next
    case (Some p)
    then show ?thesis using that by (cases p) simp
  qed
  with assms have m: "match_dep (strip slot) = Some (n, g)"
    and c: "c = (case g of None \<Rightarrow> [] | Some x \<Rightarrow> x)"
    by (simp_all add: slot_pairs_def)
  then show "slot_pairs slot = [(n, c)]" by (simp add: slot_pairs_def)
  from m show n: "n = name_part (strip slot)" "n \<noteq> []" by (simp_all add: match_dep_name)
  show "has_group (strip slot) n c" if "c \<noteq> []"
  proof -
    from that c obtain x where "g = Some x" "c = x" by (cases g) auto
    with m show ?thesis by (simp add: group_backward)
  qed
  show "\<not> has_group (strip slot) n c'" if "c = []"
  proof
    assume hg: "has_group (strip slot) n c'"
    from group_forward[OF this n(1)] n(2) have g': "match_dep (strip slot) = Some (n, Some c')" by simp
    from hg have "c' \<noteq> []" unfolding has_group_def by blast
    with g' m c that show False by simp
  qed
qed

lemma rstrip_append:
  assumes "n \<noteq> []" "\<not> isspace (last n)"
  shows "rev (dropWhile isspace (rev (n @ r))) = n @ rev (dropWhile isspace (rev r))"
proof -
  have hd: "\<not> isspace (hd (rev n))" using assms by (simp add: hd_rev)
  have dn: "dropWhile isspace (rev n) = rev n" using assms(1) hd by (cases "rev n") auto
  have "dropWhile isspace (rev r @ rev n) = dropWhile isspace (rev r) @ rev n"
  proof (cases "\<forall>x \<in> set (rev r). isspace x")
    case True
    then have e: "dropWhile isspace (rev r) = []" by simp
    from True have "dropWhile isspace (rev r @ rev n) = dropWhile isspace (rev n)"
      by (intro dropWhile_append2) blast
    also have "\<dots> = dropWhile isspace (rev r) @ rev n" unfolding e dn by simp
    finally show ?thesis .
  next
    case False
    then obtain x where "x \<in> set (rev r)" "\<not> isspace x" by blast
    then show ?thesis by (rule dropWhile_append1)
  qed
  then show ?thesis by simp
qed

lemma slot_pairs_alternative:
  assumes "n \<noteq> []" "\<forall>x \<in> set n. \<not> isspace x \<and> x \<noteq> CHR ''(''"
  shows "slot_pairs (n @ '' | '' @ alt) = [(n, [])]"
proof -
  define r where "r = rev (dropWhile isspace (rev (CHR '' '' # alt)))"
  have sp: "isspace (CHR '' '')" and bar: "\<not> isspace (CHR ''|'')" by (simp_all add: isspace_def)
  have hn: "\<not> isspace (hd n)" using assms by simp
  have "n @ '' | '' @ alt = (n @ '' |'') @ CHR '' '' # alt" by simp
  then have "rev (dropWhile isspace (rev (n @ '' | '' @ alt))) = (n @ '' |'') @ r"
    unfolding r_def using rstrip_append[of "n @ '' |''" "CHR '' '' # alt"] bar by simp
  moreover have "dropWhile isspace (n @ '' | '' @ alt) = n @ '' | '' @ alt"
    using assms(1) hn by (cases n) auto
  ultimately have st: "strip (n @ '' | '' @ alt) = n @ CHR '' '' # CHR ''|'' # r"
    by (simp add: strip_def)
  have np: "takeWhile (\<lambda>c. \<not> isspace c \<and> c \<noteq> CHR ''('') (n @ CHR '' '' # CHR ''|'' # r) = n"
    using assms(2) sp by (simp add: takeWhile_append2)
  have "match_dep (n @ CHR '' '' # CHR ''|'' # r) = Some (n, None)"
    unfolding match_dep_def Let_def np using assms(1) sp bar by simp
  then show ?thesis unfolding slot_pairs_def st by simp
qed

text \<open>
  C9 as stated fails. The value \<^verbatim>\<open>a,,b\<close> has three slots and gives two pairs: the empty
  slot gives none. For the slot \<^verbatim>\<open>libfoo(>= 2)\<close> the first whitespace-delimited token is
  \<^verbatim>\<open>libfoo(>=\<close>, and the name recorded is \<^verbatim>\<open>libfoo\<close>. For the slot \<^verbatim>\<open>a|b\<close> the alternative
  is not discarded: the name recorded is \<^verbatim>\<open>a|b\<close>.
\<close>

theorem parse_depends_slots_counterexample:
  "split ''a,,b'' '','' = [''a'', [], ''b'']
   \<and> parse_depends ''a,,b'' = [(''a'', []), (''b'', [])]
   \<and> first_token ''libfoo(>= 2)'' = ''libfoo(>=''
   \<and> parse_depends ''libfoo(>= 2)'' = [(''libfoo'', ''>= 2'')]
   \<and> parse_depends ''a|b'' = [(''a|b'', [])]"
  by (simp add: depends_eval)

text \<open>
  C9, amended. The value is split on commas and the list is the concatenation of what the
  slots contribute, in order. A slot contributes at most one pair. It contributes none
  exactly when, stripped, it is empty or starts with an opening parenthesis. Otherwise the
  name of its pair is the longest prefix of the stripped slot without whitespace and
  without an opening parenthesis; this is the first whitespace-delimited token of the slot
  when that token holds no opening parenthesis. The constraint is the content of the
  parenthesized group that follows the name (after optional whitespace) when there is such
  a group with non-empty content and a closing parenthesis, and the empty string otherwise.
  A slot \<^verbatim>\<open>name | alternatives\<close> contributes the pair of the name alone, with the empty
  constraint.
\<close>

theorem parse_depends_slots:
  "parse_depends v = concat (map slot_pairs (split v '',''))
   \<and> length (slot_pairs slot) \<le> 1
   \<and> (slot_pairs slot = [] \<longleftrightarrow> strip slot = [] \<or> hd (strip slot) = CHR ''('')
   \<and> ((n, c) \<in> set (slot_pairs slot) \<longrightarrow>
        n = name_part (strip slot) \<and> n \<noteq> []
        \<and> (CHR ''('' \<notin> set (first_token slot) \<longrightarrow> n = first_token slot)
        \<and> (c \<noteq> [] \<longrightarrow> has_group (strip slot) n c)
        \<and> (c = [] \<longrightarrow> (\<forall>g. \<not> has_group (strip slot) n g)))
   \<and> (m \<noteq> [] \<and> (\<forall>x \<in> set m. \<not> isspace x \<and> x \<noteq> CHR ''('') \<longrightarrow>
        slot_pairs (m @ '' | '' @ alt) = [(m, [])])"
proof (intro conjI impI allI)
  show "parse_depends v = concat (map slot_pairs (split v '',''))"
    by (rule parse_depends_concat)
  show "length (slot_pairs slot) \<le> 1" by (rule slot_pairs_length)
  show "slot_pairs slot = [] \<longleftrightarrow> strip slot = [] \<or> hd (strip slot) = CHR ''(''"
    by (rule slot_pairs_Nil)
  show "slot_pairs (m @ '' | '' @ alt) = [(m, [])]"
    if "m \<noteq> [] \<and> (\<forall>x \<in> set m. \<not> isspace x \<and> x \<noteq> CHR ''('')"
    using that by (intro slot_pairs_alternative) simp_all
next
  assume a: "(n, c) \<in> set (slot_pairs slot)"
  show "n = name_part (strip slot)" using a by (rule slot_pairs_pair(2))
  show "n \<noteq> []" using a by (rule slot_pairs_pair(3))
  show "n = first_token slot" if "CHR ''('' \<notin> set (first_token slot)"
    using slot_pairs_pair(2)[OF a] name_part_first_token[OF that] by simp
  show "has_group (strip slot) n c" if "c \<noteq> []" using a that by (rule slot_pairs_pair(4))
  show "\<not> has_group (strip slot) n g" if "c = []" for g using a that by (rule slot_pairs_pair(5))
qed

theorem parse_depends_slots_witness:
  "parse_depends ''libfoo | libbar (>= 2), baz (= 1.0), qux''
     = slot_pairs ''libfoo | libbar (>= 2)'' @ slot_pairs '' baz (= 1.0)'' @ slot_pairs '' qux''
   \<and> slot_pairs '' baz (= 1.0)'' = [(''baz'', ''= 1.0'')]
   \<and> strip '' baz (= 1.0)'' = ''baz (= 1.0)''
   \<and> first_token '' baz (= 1.0)'' = ''baz''
   \<and> has_group ''baz (= 1.0)'' ''baz'' ''= 1.0''
   \<and> slot_pairs ''libfoo | libbar (>= 2)'' = [(''libfoo'', [])]"
proof -
  note inst = parse_depends_slots[where v = "''libfoo | libbar (>= 2), baz (= 1.0), qux''"
      and slot = "'' baz (= 1.0)''" and n = "''baz''" and c = "''= 1.0''"
      and m = "''libfoo''" and alt = "''libbar (>= 2)''"]
  have slots: "split ''libfoo | libbar (>= 2), baz (= 1.0), qux'' '',''
      = [''libfoo | libbar (>= 2)'', '' baz (= 1.0)'', '' qux'']"
    by (simp add: split_def)
  have pair: "slot_pairs '' baz (= 1.0)'' = [(''baz'', ''= 1.0'')]" by (simp add: depends_eval)
  have stripped: "strip '' baz (= 1.0)'' = ''baz (= 1.0)''" by (simp add: depends_eval)
  have token: "first_token '' baz (= 1.0)'' = ''baz''" by (simp add: depends_eval)
  have plain: "''libfoo'' \<noteq> [] \<and> (\<forall>x \<in> set ''libfoo''. \<not> isspace x \<and> x \<noteq> CHR ''('')"
    by (simp add: isspace_def)
  have constraint: "''= 1.0'' \<noteq> []" by simp
  from inst have "parse_depends ''libfoo | libbar (>= 2), baz (= 1.0), qux''
      = concat (map slot_pairs (split ''libfoo | libbar (>= 2), baz (= 1.0), qux'' '',''))"
    by (rule conjunct1)
  then have c1: "parse_depends ''libfoo | libbar (>= 2), baz (= 1.0), qux''
     = slot_pairs ''libfoo | libbar (>= 2)'' @ slot_pairs '' baz (= 1.0)'' @ slot_pairs '' qux''"
    unfolding slots by simp
  have "(''baz'', ''= 1.0'') \<in> set (slot_pairs '' baz (= 1.0)'')" unfolding pair by simp
  with inst constraint have "has_group (strip '' baz (= 1.0)'') ''baz'' ''= 1.0''" by blast
  then have c5: "has_group ''baz (= 1.0)'' ''baz'' ''= 1.0''" unfolding stripped .
  from inst plain have c6: "slot_pairs (''libfoo'' @ '' | '' @ ''libbar (>= 2)'') = [(''libfoo'', [])]"
    by blast
  from c1 pair stripped token c5 c6 show ?thesis by simp
qed

section \<open>Properties of the installer\<close>

lemma not_found_dependencies: "NotFound n \<notin> set (install_dependencies single k deps)"
  by (induction deps arbitrary: k) auto

lemma resolve_unknown_root: "fmlookup db root = None \<Longrightarrow> resolve db installed forbidden root = []"
  by (simp add: resolve_def resolve_dependencies.simps)

lemma resolve_leaf_root:
  "fmlookup db root = Some pkg \<Longrightarrow> depends pkg = [] \<Longrightarrow> resolve db installed forbidden root = []"
  by (simp add: resolve_def resolve_dependencies.simps resolve_slots.simps)

lemma install_not_found_iff:
  "NotFound root \<in> set (snd (install db installed answer single root))
     \<longleftrightarrow> root \<notin> FORBIDDEN_PACKAGES \<and> fmlookup db root = None"
  by (auto simp: install_def Let_def not_found_dependencies split: option.splits)

lemma is_yes_example: "is_yes '' Yes '' \<and> \<not> is_yes ''no''"
  by code_simp

text \<open>
  C4 as stated fails: the resolver returns the empty list for a root without a record,
  the value it also returns for a root that has a record and no dependencies. Here X has no
  record and C has one.
\<close>

theorem unknown_root_counterexample:
  "fmlookup leaf_catalog ''X'' = None
   \<and> resolve leaf_catalog {} FORBIDDEN_PACKAGES ''X'' = []
   \<and> fmlookup leaf_catalog ''C'' = Some (example_pkg ''C'' [])
   \<and> resolve leaf_catalog {} FORBIDDEN_PACKAGES ''C'' = []"
  by (simp add: resolve_eval leaf_catalog_def)

text \<open>
  C4, amended. For a root without a record the resolver returns the empty list, as it does
  for a root with a record and no dependencies. The outcome "not found" is produced by
  \<^verbatim>\<open>install\<close>, which looks the root up before it resolves: for a root that is not protected
  and has no record it prints the message "not found" and returns \<open>False\<close>, with no prompt,
  no resolution and no installation; and that message is among its events in this case
  only.
\<close>

theorem unknown_root_reported_by_install:
  "(fmlookup db root = None \<longrightarrow> resolve db installed forbidden root = [])
   \<and> (fmlookup db root = Some pkg \<and> depends pkg = [] \<longrightarrow> resolve db installed forbidden root = [])
   \<and> (fmlookup db root = None \<and> root \<notin> FORBIDDEN_PACKAGES \<longrightarrow>
        install db installed answer single root = (False, [NotFound root]))
   \<and> (NotFound root \<in> set (snd (install db installed answer single root))
        \<longleftrightarrow> root \<notin> FORBIDDEN_PACKAGES \<and> fmlookup db root = None)"
proof (intro conjI impI)
  show "resolve db installed forbidden root = []" if "fmlookup db root = None"
    using that by (rule resolve_unknown_root)
  show "resolve db installed forbidden root = []" if "fmlookup db root = Some pkg \<and> depends pkg = []"
    using that resolve_leaf_root by blast
  show "install db installed answer single root = (False, [NotFound root])"
    if "fmlookup db root = None \<and> root \<notin> FORBIDDEN_PACKAGES"
    using that by (simp add: install_def)
  show "NotFound root \<in> set (snd (install db installed answer single root))
        \<longleftrightarrow> root \<notin> FORBIDDEN_PACKAGES \<and> fmlookup db root = None"
    by (rule install_not_found_iff)
qed

theorem unknown_root_reported_by_install_witness:
  "fmlookup leaf_catalog ''X'' = None \<and> ''X'' \<notin> FORBIDDEN_PACKAGES
   \<and> resolve leaf_catalog {} FORBIDDEN_PACKAGES ''X'' = []
   \<and> install leaf_catalog {} (\<lambda>k. ''yes'') (\<lambda>k n. True) ''X'' = (False, [NotFound ''X''])
   \<and> fmlookup leaf_catalog ''C'' = Some (example_pkg ''C'' [])
   \<and> depends (example_pkg ''C'' []) = []
   \<and> resolve leaf_catalog {} FORBIDDEN_PACKAGES ''C'' = []
   \<and> install leaf_catalog {} (\<lambda>k. ''yes'') (\<lambda>k n. True) ''C''
       = (True, [Analyzing ''C'', AllSatisfied, AskInstall ''C'', InstallingMain ''C'',
                 InstallSingle ''C''])"
proof -
  have x: "fmlookup leaf_catalog ''X'' = None" "''X'' \<notin> FORBIDDEN_PACKAGES"
    by (simp_all add: leaf_catalog_def FORBIDDEN_PACKAGES_def)
  have c: "fmlookup leaf_catalog ''C'' = Some (example_pkg ''C'' [])"
    "depends (example_pkg ''C'' []) = []" "''C'' \<notin> FORBIDDEN_PACKAGES"
    by (simp_all add: leaf_catalog_def example_pkg_def FORBIDDEN_PACKAGES_def)
  have yes: "is_yes ''yes''" by code_simp
  note ix = unknown_root_reported_by_install[where db = leaf_catalog and root = "''X''"
      and installed = "{}" and forbidden = FORBIDDEN_PACKAGES
      and answer = "\<lambda>k. ''yes''" and single = "\<lambda>k n. True"]
  note ic = unknown_root_reported_by_install[where db = leaf_catalog and root = "''C''"
      and pkg = "example_pkg ''C'' []" and installed = "{}" and forbidden = FORBIDDEN_PACKAGES]
  from ic c have rc: "resolve leaf_catalog {} FORBIDDEN_PACKAGES ''C'' = []" by blast
  then have "install leaf_catalog {} (\<lambda>k. ''yes'') (\<lambda>k n. True) ''C''
       = (True, [Analyzing ''C'', AllSatisfied, AskInstall ''C'', InstallingMain ''C'',
                 InstallSingle ''C''])"
    using c yes by (simp add: install_def)
  with ix x ic c show ?thesis by blast
qed

section \<open>Properties of the cache\<close>




end
